theory Spec2Isabelle
  imports Main
begin

section \<open>Data model\<close>

text \<open>
  The match-3 engine of the script: an 8 x 8 board of pieces, read as \<open>board[y][x]\<close>.
  A coordinate object \<open>{x, y}\<close> is the pair \<open>(x, y)\<close> of integers (blast areas reach
  outside the grid, so coordinates may be negative). A key \<open>cellKey(x, y)\<close> of a
  \<open>Set<string>\<close> or \<open>Map<string, _>\<close> is represented by the pair it encodes; a JavaScript
  \<open>Set\<close> is a duplicate-free list in insertion order, which is also its iteration order.
\<close>

datatype piece_kind = NORMAL | ROCKET | BOMB

record piece =
  pid :: nat
  color :: nat
  kind :: piece_kind

type_synonym pos = "int \<times> int"

type_synonym board = "piece option list list"

definition GRID :: int where
  "GRID = 8"

definition isInBounds :: "int \<Rightarrow> int \<Rightarrow> bool" where
  "isInBounds x y = (x \<ge> 0 \<and> y \<ge> 0 \<and> x < GRID \<and> y < GRID)"

definition manhattan :: "pos \<Rightarrow> pos \<Rightarrow> int" where
  "manhattan a b = \<bar>fst a - fst b\<bar> + \<bar>snd a - snd b\<bar>"

text \<open>
  \<open>board[y]?.[x]\<close>: a read outside the arrays gives \<open>undefined\<close>, which every caller
  treats like the empty cell \<open>null\<close>.
\<close>

definition cellAt :: "board \<Rightarrow> int \<Rightarrow> int \<Rightarrow> piece option" where
  "cellAt b x y =
     (if 0 \<le> y \<and> nat y < length b \<and> 0 \<le> x \<and> nat x < length (b ! nat y)
      then b ! nat y ! nat x else None)"

text \<open>\<open>board[y][x] = v\<close>; every write of the script is guarded by \<open>isInBounds\<close>.\<close>

definition setCell :: "board \<Rightarrow> int \<Rightarrow> int \<Rightarrow> piece option \<Rightarrow> board" where
  "setCell b x y v = b[nat y := (b ! nat y)[nat x := v]]"

definition wf_board :: "board \<Rightarrow> bool" where
  "wf_board b = (length b = nat GRID \<and> list_all (\<lambda>row. length row = nat GRID) b)"

definition addKey :: "'a list \<Rightarrow> 'a \<Rightarrow> 'a list" where
  "addKey ks k = (if k \<in> set ks then ks else ks @ [k])"

subsection \<open>destroyCells\<close>

definition destroyStep :: "board \<times> nat \<Rightarrow> pos \<Rightarrow> board \<times> nat" where
  "destroyStep acc k =
     (let bd = fst acc; destroyed = snd acc; x = fst k; y = snd k in
      if \<not> isInBounds x y then acc
      else if cellAt bd x y \<noteq> None then (setCell bd x y None, destroyed + 1)
      else acc)"

definition destroyCells :: "board \<Rightarrow> pos list \<Rightarrow> board \<times> nat" where
  "destroyCells b cs =
     (let uniq = foldl (\<lambda>u c. if \<not> isInBounds (fst c) (snd c) then u else addKey u c) [] cs
      in foldl destroyStep (b, 0) uniq)"

section \<open>Game state, piece ids and the random source\<close>

text \<open>
  The script's globals \<open>board\<close>, \<open>score\<close>, \<open>nextId\<close> and \<open>isBusy\<close> form the state.
  \<open>Math.random\<close> is an input of the program: the source \<open>rng\<close> lists the numbers that
  the successive calls of \<open>randInt\<close> draw (reduced modulo the bound), and \<open>rpos\<close> counts
  the calls made so far. The animation tables (\<open>visuals\<close>, \<open>moveAnims\<close>, \<open>styleAnims\<close>)
  never flow back into the board and are left out. Each function below describes its
  handler run without another handler between its \<open>await\<close>s on the animation step; the
  section on handlers and animation waits takes up the New Game click, which no guard
  keeps out of such a wait.
\<close>

type_synonym rand_source = "nat \<Rightarrow> nat"

record game =
  board :: board
  score :: int
  nextId :: nat
  isBusy :: bool
  rpos :: nat

definition COLORS_length :: nat where
  "COLORS_length = 6"

definition randInt :: "rand_source \<Rightarrow> nat \<Rightarrow> game \<Rightarrow> nat \<times> game" where
  "randInt rng n g = (rng (rpos g) mod n, g\<lparr>rpos := rpos g + 1\<rparr>)"

definition makePiece :: "nat \<Rightarrow> piece_kind \<Rightarrow> game \<Rightarrow> piece \<times> game" where
  "makePiece c k g = (\<lparr>pid = nextId g, color = c, kind = k\<rparr>, g\<lparr>nextId := nextId g + 1\<rparr>)"

definition setScore :: "int \<Rightarrow> game \<Rightarrow> game" where
  "setScore v g = g\<lparr>score := max 0 v\<rparr>"

definition addScore :: "int \<Rightarrow> game \<Rightarrow> game" where
  "addScore delta g = (if delta \<le> 0 then g else setScore (score g + delta) g)"

subsection \<open>makeBoard\<close>

text \<open>
  The retry loop \<open>while (forbid.has(color) && tries < 12)\<close>; the first argument counts the
  tries that are left.
\<close>

fun retryColor :: "rand_source \<Rightarrow> nat list \<Rightarrow> nat \<Rightarrow> nat \<Rightarrow> game \<Rightarrow> nat \<times> game" where
  "retryColor rng forbid 0 c g = (c, g)"
| "retryColor rng forbid (Suc left) c g =
     (if c \<in> set forbid
      then (let (c', g') = randInt rng COLORS_length g in retryColor rng forbid left c' g')
      else (c, g))"

definition forbidOf :: "piece option \<Rightarrow> piece option \<Rightarrow> nat list" where
  "forbidOf p1 p2 =
     (case (p1, p2) of
        (Some a, Some b) \<Rightarrow> if color a = color b then [color a] else []
      | _ \<Rightarrow> [])"

text \<open>\<open>row[i]\<close> of the row under construction; \<open>undefined\<close> beyond its end.\<close>

definition rowAt :: "piece option list \<Rightarrow> nat \<Rightarrow> piece option" where
  "rowAt row i = (if i < length row then row ! i else None)"

definition forbidAt :: "board \<Rightarrow> piece option list \<Rightarrow> nat \<Rightarrow> nat \<Rightarrow> nat list" where
  "forbidAt b row x y =
     (if x \<ge> 2 then forbidOf (rowAt row (x - 1)) (rowAt row (x - 2)) else []) @
     (if y \<ge> 2 then forbidOf (cellAt b (int x) (int y - 1)) (cellAt b (int x) (int y - 2)) else [])"

definition pickColor :: "rand_source \<Rightarrow> nat list \<Rightarrow> game \<Rightarrow> nat \<times> game" where
  "pickColor rng forbid g =
     (let (c0, g0) = randInt rng COLORS_length g in
      if forbid \<noteq> [] then
        (let (c1, g1) = retryColor rng forbid 12 c0 g0 in
         if c1 \<in> set forbid
         then (case find (\<lambda>c. c \<notin> set forbid) [0..<COLORS_length] of
                 Some c \<Rightarrow> (c, g1)
               | None \<Rightarrow> (c1, g1))
         else (c1, g1))
      else (c0, g0))"

definition makeCell :: "rand_source \<Rightarrow> board \<Rightarrow> nat \<Rightarrow> piece option list \<times> game \<Rightarrow> nat
    \<Rightarrow> piece option list \<times> game" where
  "makeCell rng b y acc x =
     (let row = fst acc; g = snd acc;
          (c, g1) = pickColor rng (forbidAt b row x y) g;
          (p, g2) = makePiece c NORMAL g1
      in (row @ [Some p], g2))"

definition makeRow :: "rand_source \<Rightarrow> board \<times> game \<Rightarrow> nat \<Rightarrow> board \<times> game" where
  "makeRow rng acc y =
     (let b = fst acc; g = snd acc;
          (row, g') = foldl (makeCell rng b y) ([], g) [0..<nat GRID]
      in (b @ [row], g'))"

definition makeBoard :: "rand_source \<Rightarrow> game \<Rightarrow> board \<times> game" where
  "makeBoard rng g = foldl (makeRow rng) ([], g) [0..<nat GRID]"

definition newGame :: "rand_source \<Rightarrow> game \<Rightarrow> game" where
  "newGame rng g =
     (let (b, g') = makeBoard rng g in setScore 0 (g'\<lparr>board := b, isBusy := False\<rparr>))"

text \<open>Three cells that hold pieces of one colour, and a board without such a triple.\<close>

definition sameColor3 :: "piece option \<Rightarrow> piece option \<Rightarrow> piece option \<Rightarrow> bool" where
  "sameColor3 p q r =
     (case (p, q, r) of
        (Some a, Some b, Some c) \<Rightarrow> color a = color b \<and> color b = color c
      | _ \<Rightarrow> False)"

definition noTriples :: "board \<Rightarrow> bool" where
  "noTriples b =
     (\<forall>x y. \<not> sameColor3 (cellAt b x y) (cellAt b (x + 1) y) (cellAt b (x + 2) y)
          \<and> \<not> sameColor3 (cellAt b x y) (cellAt b x (y + 1)) (cellAt b x (y + 2)))"

section \<open>Run detector\<close>

datatype direction = Horizontal | Vertical

record segment =
  cells :: "pos list"
  seg_color :: nat
  dir :: direction

text \<open>
  One iteration of the scanning loop, for the index \<open>i\<close> from \<open>0\<close> to \<open>GRID\<close> inclusive.
  The accumulator is \<open>(runColor, runStart, segments)\<close>; \<open>colorAt i\<close> is the colour of the
  \<open>i\<close>-th cell of the line (\<open>null\<close> for an empty cell), \<open>mk runStart i runColor\<close> is the
  segment pushed for the cells \<open>runStart, \<dots>, i - 1\<close> (the type of what is pushed is left
  open, so that a scan can also be read as the list of its runs' bounds).
\<close>

definition scanStep :: "(nat \<Rightarrow> nat option) \<Rightarrow> (nat \<Rightarrow> nat \<Rightarrow> nat \<Rightarrow> 's)
    \<Rightarrow> nat option \<times> nat \<times> 's list \<Rightarrow> nat \<Rightarrow> nat option \<times> nat \<times> 's list" where
  "scanStep colorAt mk acc i =
     (let runColor = fst acc; runStart = fst (snd acc); segs = snd (snd acc);
          c = (if int i < GRID then colorAt i else None)
      in if c \<noteq> runColor
         then (c, i,
               (case runColor of
                  None \<Rightarrow> segs
                | Some rc \<Rightarrow> if i - runStart \<ge> 3 then segs @ [mk runStart i rc] else segs))
         else acc)"

definition scanLine :: "(nat \<Rightarrow> nat option) \<Rightarrow> (nat \<Rightarrow> nat \<Rightarrow> nat \<Rightarrow> 's)
    \<Rightarrow> 's list \<Rightarrow> 's list" where
  "scanLine colorAt mk segs = snd (snd (foldl (scanStep colorAt mk) (None, 0, segs) [0..<nat GRID + 1]))"

definition colorAtCell :: "board \<Rightarrow> int \<Rightarrow> int \<Rightarrow> nat option" where
  "colorAtCell b x y = map_option color (cellAt b x y)"

definition hSegment :: "nat \<Rightarrow> nat \<Rightarrow> nat \<Rightarrow> nat \<Rightarrow> segment" where
  "hSegment y runStart i rc =
     \<lparr>cells = map (\<lambda>xx. (int xx, int y)) [runStart..<i], seg_color = rc, dir = Horizontal\<rparr>"

definition vSegment :: "nat \<Rightarrow> nat \<Rightarrow> nat \<Rightarrow> nat \<Rightarrow> segment" where
  "vSegment x runStart i rc =
     \<lparr>cells = map (\<lambda>yy. (int x, int yy)) [runStart..<i], seg_color = rc, dir = Vertical\<rparr>"

definition scanRow :: "board \<Rightarrow> segment list \<Rightarrow> nat \<Rightarrow> segment list" where
  "scanRow b segs y = scanLine (\<lambda>x. colorAtCell b (int x) (int y)) (hSegment y) segs"

definition scanColumn :: "board \<Rightarrow> segment list \<Rightarrow> nat \<Rightarrow> segment list" where
  "scanColumn b segs x = scanLine (\<lambda>y. colorAtCell b (int x) (int y)) (vSegment x) segs"

definition findMatchSegments :: "board \<Rightarrow> segment list" where
  "findMatchSegments b =
     foldl (scanColumn b) (foldl (scanRow b) [] [0..<nat GRID]) [0..<nat GRID]"

subsection \<open>What a run is\<close>

text \<open>
  The colour of the \<open>i\<close>-th cell of a line as the scan reads it, three equal colours
  in a row starting at \<open>i\<close>, and a board with such a triple in a row or a column.
\<close>

definition lineColor :: "(nat \<Rightarrow> nat option) \<Rightarrow> nat \<Rightarrow> nat option" where
  "lineColor colorAt i = (if int i < GRID then colorAt i else None)"

definition tripleAt :: "(nat \<Rightarrow> nat option) \<Rightarrow> nat \<Rightarrow> bool" where
  "tripleAt colorAt i =
     (int i + 2 < GRID \<and> colorAt i \<noteq> None \<and> colorAt (i + 1) = colorAt i \<and> colorAt (i + 2) = colorAt i)"

definition lineHasRun :: "(nat \<Rightarrow> nat option) \<Rightarrow> bool" where
  "lineHasRun colorAt = list_ex (tripleAt colorAt) [0..<nat GRID]"

definition hasRun :: "board \<Rightarrow> bool" where
  "hasRun b =
     (list_ex (\<lambda>y. lineHasRun (\<lambda>x. colorAtCell b (int x) (int y))) [0..<nat GRID]
      \<or> list_ex (\<lambda>x. lineHasRun (\<lambda>y. colorAtCell b (int x) (int y))) [0..<nat GRID])"

definition full_board :: "board \<Rightarrow> bool" where
  "full_board b = list_all (\<lambda>row. list_all (\<lambda>c. c \<noteq> None) row) b"

subsection \<open>Reading a scan as a list of bounds\<close>

text \<open>
  \<open>bounds\<close> pushes \<open>(runStart, i, runColor)\<close> in place of a segment; \<open>scanState col n\<close> is
  the state of such a scan after the indices below \<open>n\<close>. \<open>goodRun\<close> says that a triple of
  bounds is a run of at least three cells of one colour ending at or before \<open>lim\<close>,
  \<open>ordered\<close> that the runs of a list follow each other without overlap.
\<close>

definition bounds :: "nat \<Rightarrow> nat \<Rightarrow> nat \<Rightarrow> nat \<times> nat \<times> nat" where
  "bounds a e c = (a, e, c)"

definition scanState :: "(nat \<Rightarrow> nat option) \<Rightarrow> nat \<Rightarrow> nat option \<times> nat \<times> (nat \<times> nat \<times> nat) list" where
  "scanState col n = foldl (scanStep col bounds) (None, 0, []) [0..<n]"

definition goodRun :: "(nat \<Rightarrow> nat option) \<Rightarrow> nat \<Rightarrow> nat \<times> nat \<times> nat \<Rightarrow> bool" where
  "goodRun col lim iv = (case iv of (a, e, c) \<Rightarrow>
     a + 3 \<le> e \<and> e \<le> lim \<and> (\<forall>j. a \<le> j \<and> j < e \<longrightarrow> lineColor col j = Some c))"

fun ordered :: "(nat \<times> nat \<times> nat) list \<Rightarrow> bool" where
  "ordered [] = True"
| "ordered (iv # ivs) = ((\<forall>iv' \<in> set ivs. fst (snd iv) \<le> fst iv') \<and> ordered ivs)"

definition rowRuns :: "board \<Rightarrow> nat \<Rightarrow> (nat \<times> nat \<times> nat) list" where
  "rowRuns b y = scanLine (\<lambda>x. colorAtCell b (int x) (int y)) bounds []"

definition colRuns :: "board \<Rightarrow> nat \<Rightarrow> (nat \<times> nat \<times> nat) list" where
  "colRuns b x = scanLine (\<lambda>y. colorAtCell b (int x) (int y)) bounds []"

definition horizontalSegments :: "board \<Rightarrow> segment list" where
  "horizontalSegments b =
     concat (map (\<lambda>y. map (\<lambda>(a, e, c). hSegment y a e c) (rowRuns b y)) [0..<nat GRID])"

definition verticalSegments :: "board \<Rightarrow> segment list" where
  "verticalSegments b =
     concat (map (\<lambda>x. map (\<lambda>(a, e, c). vSegment x a e c) (colRuns b x)) [0..<nat GRID])"

text \<open>What every detected segment looks like.\<close>

definition segment_ok :: "board \<Rightarrow> segment \<Rightarrow> bool" where
  "segment_ok b s = (3 \<le> length (cells s) \<and>
     (\<forall>k \<in> set (cells s). isInBounds (fst k) (snd k)
         \<and> colorAtCell b (fst k) (snd k) = Some (seg_color s)))"

text \<open>
  Invariants of the construction in \<open>makeBoard\<close>: a row in the making above the rows
  \<open>b\<close>, and the rows made so far.
\<close>

definition rowGood :: "board \<Rightarrow> nat \<Rightarrow> piece option list \<Rightarrow> bool" where
  "rowGood b y row =
     (list_all (\<lambda>c. c \<noteq> None) row
      \<and> (\<forall>i. i + 2 < length row \<longrightarrow> \<not> sameColor3 (row ! i) (row ! (i + 1)) (row ! (i + 2)))
      \<and> (\<forall>i < length row.
            \<not> sameColor3 (cellAt b (int i) (int y - 2)) (cellAt b (int i) (int y - 1)) (row ! i)))"

definition boardGood :: "board \<Rightarrow> nat \<Rightarrow> bool" where
  "boardGood b m =
     (length b = m \<and> list_all (\<lambda>row. length row = nat GRID) b \<and> full_board b \<and> noTriples b)"

section \<open>Blast areas\<close>

definition rocketArea :: "pos \<Rightarrow> pos list" where
  "rocketArea center =
     [(fst center, snd center), (fst center + 1, snd center), (fst center - 1, snd center),
      (fst center, snd center + 1), (fst center, snd center - 1)]"

definition bombArea :: "pos \<Rightarrow> pos list" where
  "bombArea center =
     (let r = 2 in
      concat (map (\<lambda>dy. concat (map (\<lambda>dx.
        if dx * dx + dy * dy \<le> r * r then [(fst center + dx, snd center + dy)] else [])
        [- r..r])) [- r..r]))"

section \<open>Special-piece planner\<close>

text \<open>
  \<open>preferredSwapCells\<close> is \<open>null\<close> or the array \<open>[origin, target]\<close>; the planner looks at
  the target first. The result \<open>Map\<close> is an association list in insertion order; a
  \<open>set\<close> on a key that is present replaces the value in place.
\<close>

type_synonym creations = "(pos \<times> piece_kind \<times> nat) list"

definition preferOrder :: "(pos \<times> pos) option \<Rightarrow> pos list" where
  "preferOrder preferredSwapCells =
     (case preferredSwapCells of None \<Rightarrow> [] | Some (origin, target) \<Rightarrow> [target, origin])"

definition isNormalAt :: "board \<Rightarrow> pos \<Rightarrow> bool" where
  "isNormalAt b c = (case cellAt b (fst c) (snd c) of None \<Rightarrow> False | Some p \<Rightarrow> kind p = NORMAL)"

definition chooseTarget :: "board \<Rightarrow> pos list \<Rightarrow> pos list \<Rightarrow> pos option" where
  "chooseTarget b prefer cs =
     (case find (\<lambda>pc. pc \<in> set cs \<and> isNormalAt b pc) prefer of
        Some pc \<Rightarrow> Some pc
      | None \<Rightarrow>
         (case find (\<lambda>pc. pc \<in> set cs) prefer of
            Some pc \<Rightarrow> Some pc
          | None \<Rightarrow>
             (let len = length cs; mid = len div 2 in
              case find (\<lambda>idx. isNormalAt b (cs ! idx)) (map (\<lambda>i. (mid + i) mod len) [0..<len]) of
                Some idx \<Rightarrow> Some (cs ! idx)
              | None \<Rightarrow> if mid < len then Some (cs ! mid)
                        else if cs \<noteq> [] then Some (cs ! 0) else None)))"

definition putCreation :: "creations \<Rightarrow> pos \<Rightarrow> piece_kind \<Rightarrow> nat \<Rightarrow> creations" where
  "putCreation out k knd c =
     (case map_of out k of
        None \<Rightarrow> out @ [(k, knd, c)]
      | Some existing \<Rightarrow>
          if fst existing = ROCKET \<and> knd = BOMB
          then map (\<lambda>e. if fst e = k then (k, knd, c) else e) out
          else out)"

definition planSegment :: "board \<Rightarrow> pos list \<Rightarrow> creations \<Rightarrow> segment \<Rightarrow> creations" where
  "planSegment b prefer out seg =
     (let len = length (cells seg) in
      if len < 4 then out
      else (let knd = (if len \<ge> 5 then BOMB else ROCKET) in
            case chooseTarget b prefer (cells seg) of
              None \<Rightarrow> out
            | Some target \<Rightarrow> putCreation out target knd (seg_color seg)))"

definition computeSpecialCreations :: "board \<Rightarrow> segment list \<Rightarrow> (pos \<times> pos) option \<Rightarrow> creations" where
  "computeSpecialCreations b segments preferredSwapCells =
     foldl (planSegment b (preferOrder preferredSwapCells)) [] segments"

section \<open>Chain expander\<close>

definition isSpecialAt :: "board \<Rightarrow> pos \<Rightarrow> bool" where
  "isSpecialAt b k =
     (case cellAt b (fst k) (snd k) of
        None \<Rightarrow> False
      | Some p \<Rightarrow> kind p = ROCKET \<or> kind p = BOMB)"

definition blastOf :: "board \<Rightarrow> pos \<Rightarrow> pos list" where
  "blastOf b k =
     (case cellAt b (fst k) (snd k) of
        None \<Rightarrow> []
      | Some p \<Rightarrow> if kind p = ROCKET then rocketArea k else bombArea k)"

text \<open>The inner loop over one blast area; the accumulator is \<open>(clearKeys, changed)\<close>.\<close>

definition addBlastCell :: "pos list \<Rightarrow> pos list \<times> bool \<Rightarrow> pos \<Rightarrow> pos list \<times> bool" where
  "addBlastCell protectedKeys acc c =
     (if \<not> isInBounds (fst c) (snd c) then acc
      else if c \<in> set protectedKeys then acc
      else if c \<notin> set (fst acc) then (fst acc @ [c], True)
      else acc)"

text \<open>The body of \<open>for (const k of Array.from(clearKeys))\<close>.\<close>

definition explodeKey :: "board \<Rightarrow> pos list \<Rightarrow> pos list \<times> bool \<Rightarrow> pos \<Rightarrow> pos list \<times> bool" where
  "explodeKey b protectedKeys acc k =
     (if k \<in> set protectedKeys then acc
      else if \<not> isInBounds (fst k) (snd k) then acc
      else if \<not> isSpecialAt b k then acc
      else foldl (addBlastCell protectedKeys) acc (blastOf b k))"

text \<open>One pass of the \<open>while (changed)\<close> loop, over a snapshot of the keys.\<close>

definition sweep :: "board \<Rightarrow> pos list \<Rightarrow> pos list \<Rightarrow> pos list \<times> bool" where
  "sweep b protectedKeys clearKeys = foldl (explodeKey b protectedKeys) (clearKeys, False) clearKeys"

function expandWithSpecialExplosions :: "board \<Rightarrow> pos list \<Rightarrow> pos list \<Rightarrow> pos list" where
  "expandWithSpecialExplosions b clearKeys protectedKeys =
     (if snd (sweep b protectedKeys clearKeys)
      then expandWithSpecialExplosions b (fst (sweep b protectedKeys clearKeys)) protectedKeys
      else fst (sweep b protectedKeys clearKeys))"
  by pat_completeness auto

section \<open>Collapse and refill\<close>

text \<open>
  \<open>collapseAndFillAnimated\<close> builds the grid \<open>next\<close> column by column. In column \<open>x\<close> the
  scan \<open>y = GRID - 1, \<dots>, 0\<close> writes each piece it meets to \<open>next[writeY][x]\<close>, with
  \<open>writeY\<close> counting down from \<open>GRID - 1\<close>; the rows that are left, \<open>writeY, \<dots>, 0\<close>, get
  new normal pieces of random colour. Read from the bottom row upwards, column \<open>x\<close> of
  \<open>next\<close> is therefore the surviving pieces followed by the new ones.
\<close>

definition columnSurvivors :: "board \<Rightarrow> nat \<Rightarrow> piece list" where
  "columnSurvivors b x = List.map_filter (\<lambda>y. cellAt b (int x) (int y)) (rev [0..<nat GRID])"

fun spawnPieces :: "rand_source \<Rightarrow> nat \<Rightarrow> game \<Rightarrow> piece list \<times> game" where
  "spawnPieces rng 0 g = ([], g)"
| "spawnPieces rng (Suc n) g =
     (let (c, g1) = randInt rng COLORS_length g;
          (p, g2) = makePiece c NORMAL g1;
          (ps, g3) = spawnPieces rng n g2
      in (p # ps, g3))"

definition collapseColumn :: "rand_source \<Rightarrow> board \<Rightarrow> piece list list \<times> game \<Rightarrow> nat
    \<Rightarrow> piece list list \<times> game" where
  "collapseColumn rng b acc x =
     (let survivors = columnSurvivors b x;
          (fresh, g') = spawnPieces rng (nat GRID - length survivors) (snd acc)
      in (fst acc @ [survivors @ fresh], g'))"

definition columnCell :: "piece list \<Rightarrow> nat \<Rightarrow> piece option" where
  "columnCell col y =
     (let i = nat GRID - 1 - y in if i < length col then Some (col ! i) else None)"

definition collapseAndFillAnimated :: "rand_source \<Rightarrow> game \<Rightarrow> game" where
  "collapseAndFillAnimated rng g =
     (let (cols, g') = foldl (collapseColumn rng (board g)) ([], g) [0..<nat GRID];
          next = map (\<lambda>y. map (\<lambda>x. columnCell (cols ! x) y) [0..<nat GRID]) [0..<nat GRID]
      in g'\<lparr>board := next\<rparr>)"

section \<open>Cascade resolver\<close>

definition occupiedInBounds :: "board \<Rightarrow> pos \<Rightarrow> bool" where
  "occupiedInBounds b k = (isInBounds (fst k) (snd k) \<and> cellAt b (fst k) (snd k) \<noteq> None)"

definition initialClearKeys :: "segment list \<Rightarrow> pos list \<Rightarrow> pos list" where
  "initialClearKeys segments protectedKeys =
     foldl (\<lambda>ck c. if c \<notin> set protectedKeys then addKey ck c else ck) []
       (concat (map cells segments))"

text \<open>The list \<open>willClear\<close> of a pass: the expanded clear keys that hold a piece.\<close>

definition passWillClear :: "board \<Rightarrow> (pos \<times> pos) option \<Rightarrow> pos list" where
  "passWillClear b preferredSwapCells =
     (let segments = findMatchSegments b;
          protectedKeys = map fst (computeSpecialCreations b segments preferredSwapCells);
          clearKeys = initialClearKeys segments protectedKeys
      in filter (occupiedInBounds b) (expandWithSpecialExplosions b clearKeys protectedKeys))"

definition clearCells :: "board \<Rightarrow> pos list \<Rightarrow> board" where
  "clearCells b willClear =
     foldl (\<lambda>bd c. if isInBounds (fst c) (snd c) then setCell bd (fst c) (snd c) None else bd)
       b willClear"

definition createSpecial :: "game \<Rightarrow> pos \<times> piece_kind \<times> nat \<Rightarrow> game" where
  "createSpecial g cr =
     (let x = fst (fst cr); y = snd (fst cr) in
      if \<not> isInBounds x y then g
      else (let (np, g') = makePiece (snd (snd cr)) (fst (snd cr)) g
            in g'\<lparr>board := setCell (board g') x y (Some np)\<rparr>))"

text \<open>
  One iteration of the \<open>while (true)\<close> loop of \<open>resolveMatchesAnimated\<close>: \<open>None\<close> when the
  loop breaks (no segment, or an empty \<open>willClear\<close>), otherwise the state after the clear,
  the score, the creations and the collapse.
\<close>

definition resolvePass :: "rand_source \<Rightarrow> (pos \<times> pos) option \<Rightarrow> game \<Rightarrow> game option" where
  "resolvePass rng preferredSwapCells g =
     (let segments = findMatchSegments (board g) in
      if segments = [] then None
      else (let creations = computeSpecialCreations (board g) segments preferredSwapCells;
                willClear = passWillClear (board g) preferredSwapCells
            in if willClear = [] then None
               else (let g1 = g\<lparr>board := clearCells (board g) willClear\<rparr>;
                         g2 = addScore (int (length willClear)) g1;
                         g3 = foldl createSpecial g2 creations
                     in Some (collapseAndFillAnimated rng g3))))"

text \<open>The loop itself; the value \<open>None\<close> stands for a loop that never leaves.\<close>

partial_function (option) resolveMatchesAnimated ::
    "rand_source \<Rightarrow> (pos \<times> pos) option \<Rightarrow> game \<Rightarrow> game option" where
  "resolveMatchesAnimated rng preferredSwapCells g =
     (case resolvePass rng preferredSwapCells g of
        None \<Rightarrow> Some g
      | Some g' \<Rightarrow> resolveMatchesAnimated rng None g')"

declare resolveMatchesAnimated.simps [code]

section \<open>Swap validator and special-piece activation\<close>

definition swapCells :: "pos \<Rightarrow> pos \<Rightarrow> board \<Rightarrow> board" where
  "swapCells a b bd =
     (let tmp = cellAt bd (fst a) (snd a);
          bd1 = setCell bd (fst a) (snd a) (cellAt bd (fst b) (snd b))
      in setCell bd1 (fst b) (snd b) tmp)"

text \<open>
  What the caller sees of \<open>attemptSwap\<close>: \<open>Ignored\<close> for the early returns, \<open>NoMatch\<close> for
  the branch that swaps back, plays \<open>bad\<close> and shows the hint, \<open>Matched\<close> when the swap is
  kept and resolved.
\<close>

datatype outcome = Ignored | NoMatch | Matched

definition attemptSwap :: "rand_source \<Rightarrow> pos \<Rightarrow> pos \<Rightarrow> game \<Rightarrow> (outcome \<times> game) option" where
  "attemptSwap rng origin target g =
     (if isBusy g then Some (Ignored, g)
      else if \<not> isInBounds (fst origin) (snd origin) \<or> \<not> isInBounds (fst target) (snd target)
      then Some (Ignored, g)
      else if manhattan origin target \<noteq> 1 then Some (Ignored, g)
      else if cellAt (board g) (fst origin) (snd origin) = None
            \<or> cellAt (board g) (fst target) (snd target) = None
      then Some (Ignored, g)
      else (let g1 = g\<lparr>isBusy := True\<rparr>;
                g2 = g1\<lparr>board := swapCells origin target (board g1)\<rparr>
            in if findMatchSegments (board g2) = []
               then Some (NoMatch, g2\<lparr>board := swapCells origin target (board g2), isBusy := False\<rparr>)
               else map_option (\<lambda>g'. (Matched, g'\<lparr>isBusy := False\<rparr>))
                      (resolveMatchesAnimated rng (Some (origin, target)) g2)))"

text \<open>
  The blast of an activation: the area around the centre (the drag target of a rocket,
  if any, else the piece's own cell), then the piece's own cell once more.
\<close>

definition detonationArea :: "piece \<Rightarrow> pos \<Rightarrow> pos option \<Rightarrow> pos list" where
  "detonationArea p specialOrigin specialTarget =
     (let center = (if kind p = ROCKET
                    then (case specialTarget of None \<Rightarrow> specialOrigin | Some t \<Rightarrow> t)
                    else specialOrigin);
          area = (if kind p = ROCKET then rocketArea center
                  else if kind p = BOMB then bombArea center else [])
      in area @ [specialOrigin])"

text \<open>The clear of \<open>detonateSpecial\<close> with its score, before the collapse.\<close>

definition detonationClear :: "piece \<Rightarrow> pos \<Rightarrow> pos option \<Rightarrow> game \<Rightarrow> game" where
  "detonationClear p specialOrigin specialTarget g =
     (let willClear = filter (occupiedInBounds (board g)) (detonationArea p specialOrigin specialTarget);
          g1 = g\<lparr>board := clearCells (board g) willClear\<rparr>
      in if length willClear > 0 then addScore (int (length willClear)) g1 else g1)"

definition detonateSpecial :: "rand_source \<Rightarrow> pos option \<Rightarrow> pos option \<Rightarrow> game \<Rightarrow> game option" where
  "detonateSpecial rng specialOrigin specialTarget g =
     (if isBusy g then Some g
      else case specialOrigin of
        None \<Rightarrow> Some g
      | Some so \<Rightarrow>
         (case cellAt (board g) (fst so) (snd so) of
            None \<Rightarrow> Some g
          | Some p \<Rightarrow>
             if kind p \<noteq> ROCKET \<and> kind p \<noteq> BOMB then Some g
             else (let g1 = detonationClear p so specialTarget (g\<lparr>isBusy := True\<rparr>);
                       g2 = collapseAndFillAnimated rng g1
                   in map_option (\<lambda>g'. g'\<lparr>isBusy := False\<rparr>)
                        (resolveMatchesAnimated rng None g2))))"

text \<open>The three leftmost cells of the top row hold pieces of colour 0.\<close>

definition topRunOfZeros :: "board \<Rightarrow> bool" where
  "topRunOfZeros b =
     (wf_board b \<and> colorAtCell b 0 0 = Some 0 \<and> colorAtCell b 1 0 = Some 0
      \<and> colorAtCell b 2 0 = Some 0)"

section \<open>Handlers and animation waits\<close>

text \<open>
  An \<open>async\<close> handler runs until it awaits \<open>waitForStepAnimations\<close>; the animation tick
  resumes it once no step animation is left, and the event loop may run other handlers
  in between. The board handlers return at once while \<open>isBusy\<close> is set, but the click
  handler of the New Game button calls \<open>newGame\<close> whatever \<open>isBusy\<close> says, and \<open>newGame\<close>
  replaces \<open>board\<close> and clears \<open>isBusy\<close>. The functions \<open>attemptSwap\<close>, \<open>detonateSpecial\<close>
  and \<open>resolveMatchesAnimated\<close> above describe a handler that runs without another
  handler between its waits. For the wait that follows the swap animation,
  \<open>attemptSwap\<close> is split here into the part that runs up to this wait and the part that
  runs when the handler is resumed, on the globals as they are at that moment.
\<close>

definition attemptSwapUntilWait :: "pos \<Rightarrow> pos \<Rightarrow> game \<Rightarrow> game option" where
  "attemptSwapUntilWait origin target g =
     (if isBusy g then None
      else if \<not> isInBounds (fst origin) (snd origin) \<or> \<not> isInBounds (fst target) (snd target)
      then None
      else if manhattan origin target \<noteq> 1 then None
      else if cellAt (board g) (fst origin) (snd origin) = None
            \<or> cellAt (board g) (fst target) (snd target) = None
      then None
      else (let g1 = g\<lparr>isBusy := True\<rparr>
            in Some (g1\<lparr>board := swapCells origin target (board g1)\<rparr>)))"

definition attemptSwapAfterWait :: "rand_source \<Rightarrow> pos \<Rightarrow> pos \<Rightarrow> game \<Rightarrow> (outcome \<times> game) option" where
  "attemptSwapAfterWait rng origin target g =
     (if findMatchSegments (board g) = []
      then Some (NoMatch, g\<lparr>board := swapCells origin target (board g), isBusy := False\<rparr>)
      else map_option (\<lambda>g'. (Matched, g'\<lparr>isBusy := False\<rparr>))
             (resolveMatchesAnimated rng (Some (origin, target)) g))"

text \<open>
  \<open>scriptStart\<close> is the state after the script has loaded: the initialiser
  \<open>let board = makeBoard()\<close> followed by the call of \<open>newGame\<close>. A state is at rest when no
  handler is busy and the board is full and free of runs.
\<close>

definition scriptStart :: "rand_source \<Rightarrow> game" where
  "scriptStart rng =
     (let (b, g) = makeBoard rng \<lparr>board = [], score = 0, nextId = 1, isBusy = False, rpos = 0\<rparr>
      in newGame rng (g\<lparr>board := b\<rparr>))"

definition resting :: "game \<Rightarrow> bool" where
  "resting g =
     (wf_board (board g) \<and> full_board (board g) \<and> findMatchSegments (board g) = []
      \<and> \<not> isBusy g)"

section \<open>Sample boards\<close>

text \<open>Concrete boards on which the theorems below are instantiated.\<close>

definition pieceRow :: "nat \<Rightarrow> nat list \<Rightarrow> piece option list" where
  "pieceRow y cs =
     map (\<lambda>(x, c). Some \<lparr>pid = 8 * y + x + 1, color = c, kind = NORMAL\<rparr>) (enumerate 0 cs)"

definition boardOfColors :: "nat list list \<Rightarrow> board" where
  "boardOfColors css = map (\<lambda>(y, cs). pieceRow y cs) (enumerate 0 css)"

text \<open>The colour of cell \<open>(x, y)\<close> is \<open>(x + y) mod 6\<close>: a full board without runs.\<close>

definition diagonalBoard :: board where
  "diagonalBoard = boardOfColors
     [[0, 1, 2, 3, 4, 5, 0, 1],
      [1, 2, 3, 4, 5, 0, 1, 2],
      [2, 3, 4, 5, 0, 1, 2, 3],
      [3, 4, 5, 0, 1, 2, 3, 4],
      [4, 5, 0, 1, 2, 3, 4, 5],
      [5, 0, 1, 2, 3, 4, 5, 0],
      [0, 1, 2, 3, 4, 5, 0, 1],
      [1, 2, 3, 4, 5, 0, 1, 2]]"

definition holedBoard :: board where
  "holedBoard = setCell diagonalBoard 1 0 None"

definition someCells :: "pos list" where
  "someCells = [(0, 0), (0, 0), (1, 0), (- 1, 0), (8, 3), (2, 5), (0, 0)]"

text \<open>The diagonal board with a rocket of the cell's colour at \<open>(3, 3)\<close>.\<close>

definition rocketBoard :: board where
  "rocketBoard = setCell diagonalBoard 3 3 (Some \<lparr>pid = 100, color = 0, kind = ROCKET\<rparr>)"

text \<open>The diagonal board with a bomb at \<open>(3, 3)\<close>, as a game at rest with score 0.\<close>

definition bombPiece :: piece where
  "bombPiece = \<lparr>pid = 100, color = 0, kind = BOMB\<rparr>"

definition bombGame :: game where
  "bombGame = \<lparr>board = setCell diagonalBoard 3 3 (Some bombPiece), score = 0, nextId = 101,
     isBusy = False, rpos = 0\<rparr>"

definition rocketPiece :: piece where
  "rocketPiece = \<lparr>pid = 100, color = 0, kind = ROCKET\<rparr>"

definition rocketGame :: game where
  "rocketGame = \<lparr>board = rocketBoard, score = 0, nextId = 101, isBusy = False, rpos = 0\<rparr>"

text \<open>
  A board whose top row starts with five pieces of colour 0, the third and the fourth of
  them rockets.
\<close>

definition rocketsInRunBoard :: board where
  "rocketsInRunBoard =
     setCell (setCell (boardOfColors
       [[0, 0, 0, 0, 0, 1, 2, 3],
        [1, 2, 3, 4, 5, 0, 1, 2],
        [2, 3, 4, 5, 0, 1, 2, 3],
        [3, 4, 5, 0, 1, 2, 3, 4],
        [4, 5, 0, 1, 2, 3, 4, 5],
        [5, 0, 1, 2, 3, 4, 5, 0],
        [0, 1, 2, 3, 4, 5, 0, 1],
        [1, 2, 3, 4, 5, 0, 1, 2]])
       2 0 (Some \<lparr>pid = 100, color = 0, kind = ROCKET\<rparr>))
       3 0 (Some \<lparr>pid = 101, color = 0, kind = ROCKET\<rparr>)"


text \<open>A resting game in which the swap of \<open>(2, 0)\<close> and \<open>(3, 0)\<close> makes a run of three.\<close>

definition swapGame :: game where
  "swapGame = \<lparr>board = boardOfColors
       [[0, 0, 1, 0, 2, 3, 4, 5],
        [1, 2, 3, 4, 5, 0, 1, 2],
        [2, 3, 4, 5, 0, 1, 2, 3],
        [3, 4, 5, 0, 1, 2, 3, 4],
        [4, 5, 0, 1, 2, 3, 4, 5],
        [5, 0, 1, 2, 3, 4, 5, 0],
        [0, 1, 2, 3, 4, 5, 0, 1],
        [1, 2, 3, 4, 5, 0, 1, 2]],
     score = 0, nextId = 65, isBusy = False, rpos = 0\<rparr>"

definition countingSource :: rand_source where
  "countingSource i = i + 3"

text \<open>A random source whose every draw gives colour 0.\<close>

definition constantSource :: rand_source where
  "constantSource i = 0"

text \<open>
  Boards with a run of three, a run of four and a run of five crossed by a run of four,
  and the segments the detector finds on them.
\<close>

definition fourBoard :: board where
  "fourBoard = boardOfColors
     [[0, 0, 0, 0, 2, 3, 4, 5],
      [1, 2, 3, 4, 5, 0, 1, 2],
      [2, 3, 4, 5, 0, 1, 2, 3],
      [3, 4, 5, 0, 1, 2, 3, 4],
      [4, 5, 0, 1, 2, 3, 4, 5],
      [5, 0, 1, 2, 3, 4, 5, 0],
      [0, 1, 2, 3, 4, 5, 0, 1],
      [1, 2, 3, 4, 5, 0, 1, 2]]"

definition crossBoard :: board where
  "crossBoard = boardOfColors
     [[1, 2, 0, 4, 5, 0, 1, 2],
      [2, 3, 0, 5, 1, 2, 3, 4],
      [0, 0, 0, 0, 0, 3, 4, 5],
      [4, 5, 0, 1, 2, 3, 4, 5],
      [5, 0, 1, 2, 3, 4, 5, 0],
      [0, 1, 2, 3, 4, 5, 0, 1],
      [1, 2, 3, 4, 5, 0, 1, 2],
      [2, 3, 4, 5, 0, 1, 2, 3]]"

definition threeBoard :: board where
  "threeBoard = boardOfColors
     [[0, 0, 0, 1, 2, 3, 4, 5],
      [1, 2, 3, 4, 5, 0, 1, 2],
      [2, 3, 4, 5, 0, 1, 2, 3],
      [3, 4, 5, 0, 1, 2, 3, 4],
      [4, 5, 0, 1, 2, 3, 4, 5],
      [5, 0, 1, 2, 3, 4, 5, 0],
      [0, 1, 2, 3, 4, 5, 0, 1],
      [1, 2, 3, 4, 5, 0, 1, 2]]"

definition fourRun :: segment where
  "fourRun = \<lparr>cells = [(0, 0), (1, 0), (2, 0), (3, 0)], seg_color = 0, dir = Horizontal\<rparr>"

definition fiveRun :: segment where
  "fiveRun = \<lparr>cells = [(0, 2), (1, 2), (2, 2), (3, 2), (4, 2)], seg_color = 0, dir = Horizontal\<rparr>"

definition crossRun :: segment where
  "crossRun = \<lparr>cells = [(2, 0), (2, 1), (2, 2), (2, 3)], seg_color = 0, dir = Vertical\<rparr>"

section \<open>Grid store\<close>

lemma wf_board_setCell: "wf_board b \<Longrightarrow> wf_board (setCell b x y v)"
proof (cases "nat y < length b")
  case True
  assume "wf_board b"
  then show ?thesis using True
    by (auto simp: wf_board_def setCell_def list_all_length nth_list_update)
next
  case False
  assume "wf_board b"
  then show ?thesis using False by (simp add: setCell_def list_update_beyond)
qed

lemma cellAt_setCell:
  "wf_board b \<Longrightarrow> isInBounds x y \<Longrightarrow>
   cellAt (setCell b x y v) x' y' = (if x' = x \<and> y' = y then v else cellAt b x' y')"
proof -
  assume wf: "wf_board b" and ib: "isInBounds x y"
  have ly: "nat y < length b" and lx: "nat x < length (b ! nat y)" and x0: "0 \<le> x" and y0: "0 \<le> y"
    using wf ib by (auto simp: wf_board_def isInBounds_def list_all_length GRID_def)
  show ?thesis
  proof (cases "y' = y")
    case True
    then show ?thesis using ly lx x0 y0
      by (auto simp: cellAt_def setCell_def nth_list_update)
  next
    case False
    then have "0 \<le> y' \<Longrightarrow> nat y' \<noteq> nat y" using y0 by simp
    then show ?thesis using False ly
      by (auto simp: cellAt_def setCell_def nth_list_update)
  qed
qed

lemma cellAt_None_outside: "wf_board b \<Longrightarrow> \<not> isInBounds x y \<Longrightarrow> cellAt b x y = None"
  by (auto simp: wf_board_def cellAt_def isInBounds_def list_all_iff GRID_def)

lemma uniq_fold:
  "distinct u \<Longrightarrow>
   distinct (foldl (\<lambda>u c. if \<not> isInBounds (fst c) (snd c) then u else addKey u c) u cs) \<and>
   set (foldl (\<lambda>u c. if \<not> isInBounds (fst c) (snd c) then u else addKey u c) u cs)
     = set u \<union> {c \<in> set cs. isInBounds (fst c) (snd c)}"
  by (induction cs arbitrary: u) (auto simp: addKey_def)

lemma destroy_fold:
  "wf_board bd \<Longrightarrow> distinct ks \<Longrightarrow> foldl destroyStep (bd, n) ks = (b', n') \<Longrightarrow>
   wf_board b' \<and>
   (\<forall>x y. cellAt b' x y = (if (x, y) \<in> set ks \<and> isInBounds x y then None else cellAt bd x y)) \<and>
   n' = n + card {c \<in> set ks. isInBounds (fst c) (snd c) \<and> cellAt bd (fst c) (snd c) \<noteq> None}"
proof (induction ks arbitrary: bd n)
  case Nil
  then show ?case by simp
next
  case (Cons k ks)
  obtain x y where k: "k = (x, y)" by (cases k)
  let ?occ = "\<lambda>bd ks. {c \<in> set ks. isInBounds (fst c) (snd c) \<and> cellAt bd (fst c) (snd c) \<noteq> None}"
  show ?case
  proof (cases "isInBounds x y \<and> cellAt bd x y \<noteq> None")
    case True
    let ?bd = "setCell bd x y None"
    have st: "destroyStep (bd, n) k = (?bd, n + 1)"
      using True by (simp add: destroyStep_def k)
    have wf: "wf_board ?bd" using Cons.prems(1) by (rule wf_board_setCell)
    from Cons.prems have f: "foldl destroyStep (?bd, n + 1) ks = (b', n')" and d: "distinct ks" and nk: "k \<notin> set ks"
      by (simp_all add: st)
    note IH = Cons.IH[OF wf d f]
    have occ: "?occ bd (k # ks) = insert k (?occ ?bd ks)"
      using True nk Cons.prems(1) by (auto simp: k cellAt_setCell)
    have fin: "finite (?occ ?bd ks)" by simp
    have "k \<notin> ?occ ?bd ks" using nk by simp
    then have "card (?occ bd (k # ks)) = Suc (card (?occ ?bd ks))"
      unfolding occ using fin by (rule_tac card_insert_disjoint) 
    moreover have "\<forall>x' y'. cellAt b' x' y' = (if (x', y') \<in> set (k # ks) \<and> isInBounds x' y' then None else cellAt bd x' y')"
      using IH True Cons.prems(1) by (auto simp: k cellAt_setCell)
    ultimately show ?thesis using IH by simp
  next
    case False
    have st: "destroyStep (bd, n) k = (bd, n)"
      using False by (auto simp: destroyStep_def k)
    from Cons.prems have f: "foldl destroyStep (bd, n) ks = (b', n')" and d: "distinct ks" and nk: "k \<notin> set ks"
      by (simp_all add: st)
    note IH = Cons.IH[OF Cons.prems(1) d f]
    have occ: "?occ bd (k # ks) = ?occ bd ks"
      using False by (auto simp: k)
    have "\<forall>x' y'. cellAt b' x' y' = (if (x', y') \<in> set (k # ks) \<and> isInBounds x' y' then None else cellAt bd x' y')"
      using IH False Cons.prems(1) by (auto simp: k)
    then show ?thesis using IH unfolding occ by simp
  qed
qed

section \<open>Chain expander: termination and closure\<close>

lemma finite_inBounds: "finite {c. isInBounds (fst c) (snd c)}"
proof -
  have "{c. isInBounds (fst c) (snd c)} \<subseteq> {0..7} \<times> {0..7}"
    by (auto simp: isInBounds_def GRID_def)
  then show ?thesis by (rule finite_subset) simp
qed

lemma addBlastCell_shape:
  "\<exists>ys. fst (foldl (addBlastCell P) acc area) = fst acc @ ys
      \<and> snd (foldl (addBlastCell P) acc area) = (snd acc \<or> ys \<noteq> [])
      \<and> set ys \<subseteq> {c. isInBounds (fst c) (snd c) \<and> c \<notin> set P}
      \<and> set ys \<inter> set (fst acc) = {}"
proof (induction area arbitrary: acc)
  case Nil
  then show ?case by simp
next
  case (Cons c area)
  let ?acc = "addBlastCell P acc c"
  from Cons.IH[of ?acc] obtain ys where ys:
    "fst (foldl (addBlastCell P) ?acc area) = fst ?acc @ ys"
    "snd (foldl (addBlastCell P) ?acc area) = (snd ?acc \<or> ys \<noteq> [])"
    "set ys \<subseteq> {c. isInBounds (fst c) (snd c) \<and> c \<notin> set P}"
    "set ys \<inter> set (fst ?acc) = {}" by blast
  show ?case
  proof (cases "isInBounds (fst c) (snd c) \<and> c \<notin> set P \<and> c \<notin> set (fst acc)")
    case True
    then have a: "?acc = (fst acc @ [c], True)" by (simp add: addBlastCell_def)
    show ?thesis
      using ys True by (intro exI[of _ "c # ys"]) (auto simp: a)
  next
    case False
    then have a: "?acc = acc" by (auto simp: addBlastCell_def)
    show ?thesis
      using ys by (intro exI[of _ ys]) (auto simp: a)
  qed
qed

lemma explodeKey_shape:
  "\<exists>ys. fst (explodeKey b P acc k) = fst acc @ ys
      \<and> snd (explodeKey b P acc k) = (snd acc \<or> ys \<noteq> [])
      \<and> set ys \<subseteq> {c. isInBounds (fst c) (snd c) \<and> c \<notin> set P}
      \<and> set ys \<inter> set (fst acc) = {}"
proof (cases "k \<in> set P \<or> \<not> isInBounds (fst k) (snd k) \<or> \<not> isSpecialAt b k")
  case True
  then have "explodeKey b P acc k = acc" by (auto simp: explodeKey_def)
  then show ?thesis by simp
next
  case False
  then have "explodeKey b P acc k = foldl (addBlastCell P) acc (blastOf b k)"
    by (auto simp: explodeKey_def)
  then show ?thesis using addBlastCell_shape[of P acc "blastOf b k"] by simp
qed

lemma explodeKeys_shape:
  "\<exists>ys. fst (foldl (explodeKey b P) acc ks) = fst acc @ ys
      \<and> snd (foldl (explodeKey b P) acc ks) = (snd acc \<or> ys \<noteq> [])
      \<and> set ys \<subseteq> {c. isInBounds (fst c) (snd c) \<and> c \<notin> set P}
      \<and> set ys \<inter> set (fst acc) = {}"
proof (induction ks arbitrary: acc)
  case Nil
  then show ?case by simp
next
  case (Cons k ks)
  let ?acc = "explodeKey b P acc k"
  from explodeKey_shape[of b P acc k] obtain ys1 where ys1:
    "fst ?acc = fst acc @ ys1" "snd ?acc = (snd acc \<or> ys1 \<noteq> [])"
    "set ys1 \<subseteq> {c. isInBounds (fst c) (snd c) \<and> c \<notin> set P}"
    "set ys1 \<inter> set (fst acc) = {}" by blast
  from Cons.IH[of ?acc] obtain ys2 where ys2:
    "fst (foldl (explodeKey b P) ?acc ks) = fst ?acc @ ys2"
    "snd (foldl (explodeKey b P) ?acc ks) = (snd ?acc \<or> ys2 \<noteq> [])"
    "set ys2 \<subseteq> {c. isInBounds (fst c) (snd c) \<and> c \<notin> set P}"
    "set ys2 \<inter> set (fst ?acc) = {}" by blast
  show ?case
    using ys1 ys2 by (intro exI[of _ "ys1 @ ys2"]) auto
qed

lemma sweep_shape:
  "\<exists>ys. fst (sweep b P ck) = ck @ ys
      \<and> snd (sweep b P ck) = (ys \<noteq> [])
      \<and> set ys \<subseteq> {c. isInBounds (fst c) (snd c) \<and> c \<notin> set P}
      \<and> set ys \<inter> set ck = {}"
  using explodeKeys_shape[of b P "(ck, False)" ck] by (simp add: sweep_def)

lemma sweep_unchanged: "\<not> snd (sweep b P ck) \<Longrightarrow> fst (sweep b P ck) = ck"
  using sweep_shape[of b P ck] by auto

termination expandWithSpecialExplosions
proof (relation "measure (\<lambda>(b, ck, P). card ({c. isInBounds (fst c) (snd c)} - set ck))")
  show "wf (measure (\<lambda>(b, ck, P). card ({c. isInBounds (fst c) (snd c)} - set ck)))"
    by simp
next
  fix b :: board and clearKeys protectedKeys :: "pos list"
  assume ch: "snd (sweep b protectedKeys clearKeys)"
  let ?IB = "{c. isInBounds (fst c) (snd c)}"
  from sweep_shape[of b protectedKeys clearKeys] ch obtain ys where ys:
    "fst (sweep b protectedKeys clearKeys) = clearKeys @ ys" "ys \<noteq> []"
    "set ys \<subseteq> ?IB" "set ys \<inter> set clearKeys = {}" by auto
  then obtain c where c: "c \<in> set ys" by (cases ys) auto
  have "?IB - set (clearKeys @ ys) \<subset> ?IB - set clearKeys"
    using c ys(3,4) by auto
  then have "card (?IB - set (clearKeys @ ys)) < card (?IB - set clearKeys)"
    by (intro psubset_card_mono finite_Diff finite_inBounds)
  then show "((b, fst (sweep b protectedKeys clearKeys), protectedKeys), (b, clearKeys, protectedKeys))
      \<in> measure (\<lambda>(b, ck, P). card ({c. isInBounds (fst c) (snd c)} - set ck))"
    unfolding ys(1) by simp
qed

declare expandWithSpecialExplosions.simps [simp del]

lemma expand_closed: "\<not> snd (sweep b P (expandWithSpecialExplosions b ck P))"
proof (induction b ck P rule: expandWithSpecialExplosions.induct)
  case (1 b clearKeys protectedKeys)
  show ?case
  proof (cases "snd (sweep b protectedKeys clearKeys)")
    case True
    then show ?thesis
      using "1.IH" by (subst expandWithSpecialExplosions.simps) simp
  next
    case False
    then have "expandWithSpecialExplosions b clearKeys protectedKeys = clearKeys"
      by (subst expandWithSpecialExplosions.simps) (simp add: sweep_unchanged)
    then show ?thesis using False by simp
  qed
qed

lemma expand_shape:
  "\<exists>ys. expandWithSpecialExplosions b ck P = ck @ ys
      \<and> set ys \<subseteq> {c. isInBounds (fst c) (snd c) \<and> c \<notin> set P}"
proof (induction b ck P rule: expandWithSpecialExplosions.induct)
  case (1 b clearKeys protectedKeys)
  show ?case
  proof (cases "snd (sweep b protectedKeys clearKeys)")
    case True
    from sweep_shape[of b protectedKeys clearKeys] obtain ys1 where ys1:
      "fst (sweep b protectedKeys clearKeys) = clearKeys @ ys1"
      "set ys1 \<subseteq> {c. isInBounds (fst c) (snd c) \<and> c \<notin> set protectedKeys}" by blast
    from "1.IH"[OF True] obtain ys2 where ys2:
      "expandWithSpecialExplosions b (fst (sweep b protectedKeys clearKeys)) protectedKeys
        = fst (sweep b protectedKeys clearKeys) @ ys2"
      "set ys2 \<subseteq> {c. isInBounds (fst c) (snd c) \<and> c \<notin> set protectedKeys}" by blast
    have "expandWithSpecialExplosions b clearKeys protectedKeys = clearKeys @ (ys1 @ ys2)"
      using True ys1(1) ys2(1) by (subst expandWithSpecialExplosions.simps) simp
    then show ?thesis using ys1(2) ys2(2) by (intro exI[of _ "ys1 @ ys2"]) auto
  next
    case False
    then have "expandWithSpecialExplosions b clearKeys protectedKeys = clearKeys"
      by (subst expandWithSpecialExplosions.simps) (simp add: sweep_unchanged)
    then show ?thesis by simp
  qed
qed

section \<open>Clearing cells and blast areas\<close>


lemma clearCells_cellAt:
  "wf_board b \<Longrightarrow>
   cellAt (clearCells b ks) x y = (if (x, y) \<in> set ks \<and> isInBounds x y then None else cellAt b x y)"
  unfolding clearCells_def
proof (induction ks arbitrary: b)
  case Nil
  then show ?case by simp
next
  case (Cons k ks)
  obtain kx ky where k: "k = (kx, ky)" by (cases k)
  show ?case
  proof (cases "isInBounds kx ky")
    case True
    have wf: "wf_board (setCell b kx ky None)" using Cons.prems by (rule wf_board_setCell)
    show ?thesis
      using Cons.IH[OF wf] True Cons.prems by (auto simp: k cellAt_setCell)
  next
    case False
    then show ?thesis using Cons.IH[OF Cons.prems] by (auto simp: k)
  qed
qed

lemma square_le_4: "(d::int) * d \<le> 4 \<Longrightarrow> - 2 \<le> d \<and> d \<le> 2"
proof -
  assume h: "d * d \<le> 4"
  have up: "d \<le> 2"
  proof (rule ccontr)
    assume "\<not> d \<le> 2"
    then have "3 \<le> d" by simp
    then have "3 * 3 \<le> d * d" by (intro mult_mono) auto
    with h show False by simp
  qed
  have lo: "- 2 \<le> d"
  proof (rule ccontr)
    assume "\<not> - 2 \<le> d"
    then have "3 \<le> - d" by simp
    then have "3 * 3 \<le> (- d) * (- d)" by (intro mult_mono) auto
    with h show False by simp
  qed
  show ?thesis using up lo by simp
qed

lemma set_square_scan:
  "set (concat (map (\<lambda>dy. concat (map (\<lambda>dx. if P dx dy then [f dx dy] else []) [a..b])) [a..b]))
     = {f dx dy | dx dy. a \<le> dx \<and> dx \<le> b \<and> a \<le> dy \<and> dy \<le> b \<and> P dx dy}"
  by (auto split: if_splits) (blast, force)

lemma set_bombArea:
  "set (bombArea c) = {(fst c + dx, snd c + dy) | dx dy. dx * dx + dy * dy \<le> 4}"
proof -
  have "set (bombArea c) = {(fst c + dx, snd c + dy) | dx dy.
          dx \<in> {- 2..2} \<and> dy \<in> {- 2..2} \<and> dx * dx + dy * dy \<le> 4}"
    unfolding bombArea_def Let_def set_square_scan by auto
  also have "\<dots> = {(fst c + dx, snd c + dy) | dx dy. dx * dx + dy * dy \<le> 4}"
  proof -
    have "\<And>dx dy :: int. dx * dx + dy * dy \<le> 4 \<Longrightarrow> dx \<in> {- 2..2} \<and> dy \<in> {- 2..2}"
    proof -
      fix dx dy :: int assume h: "dx * dx + dy * dy \<le> 4"
      have "0 \<le> dx * dx" "0 \<le> dy * dy" by simp_all
      with h have "dx * dx \<le> 4" "dy * dy \<le> 4" by linarith+
      then show "dx \<in> {- 2..2} \<and> dy \<in> {- 2..2}" using square_le_4 by simp
    qed
    then show ?thesis by blast
  qed
  finally show ?thesis .
qed

lemma board_addScore [simp]: "board (addScore d g) = board g"
  by (simp add: addScore_def setScore_def)

section \<open>Special-piece planner\<close>

lemma find_in_set: "find Q xs = Some x \<Longrightarrow> x \<in> set xs \<and> Q x"
  by (induction xs) (auto split: if_splits)

lemma chooseTarget_in_run:
  assumes "cs \<noteq> []"
  shows "\<exists>t \<in> set cs. chooseTarget b pf cs = Some t"
proof (cases "find (\<lambda>pc. pc \<in> set cs \<and> isNormalAt b pc) pf")
  case (Some pc)
  then show ?thesis using find_in_set[OF Some] by (simp add: chooseTarget_def)
next
  case n1: None
  show ?thesis
  proof (cases "find (\<lambda>pc. pc \<in> set cs) pf")
    case (Some pc)
    then show ?thesis using n1 find_in_set[OF Some] by (simp add: chooseTarget_def)
  next
    case n2: None
    let ?len = "length cs"
    let ?mid = "?len div 2"
    have len: "0 < ?len" using assms by simp
    then have mid: "?mid < ?len" by simp
    show ?thesis
    proof (cases "find (\<lambda>idx. isNormalAt b (cs ! idx)) (map (\<lambda>i. (?mid + i) mod ?len) [0..<?len])")
      case (Some idx)
      from find_in_set[OF Some] have "idx < ?len" using len by auto
      then show ?thesis using n1 n2 Some by (simp add: chooseTarget_def Let_def)
    next
      case None
      then show ?thesis using n1 n2 mid by (simp add: chooseTarget_def Let_def)
    qed
  qed
qed

lemma computeSpecialCreations_snoc:
  "computeSpecialCreations b (segs @ [seg]) pref
     = planSegment b (preferOrder pref) (computeSpecialCreations b segs pref) seg"
  by (simp add: computeSpecialCreations_def)

lemma planSegment_short: "length (cells seg) < 4 \<Longrightarrow> planSegment b prefer out seg = out"
  by (simp add: planSegment_def)


lemma find_map_upt:
  "find Q (map f [0..<n]) = Some x \<Longrightarrow> \<exists>i < n. x = f i \<and> Q (f i) \<and> (\<forall>j < i. \<not> Q (f j))"
  by (auto simp: find_Some_iff)

lemma rotation_covers:
  assumes "k < n"
  shows "\<exists>i < n. (m + i) mod n = (k :: nat)"
proof -
  let ?i = "(k + (n - m mod n)) mod n"
  have n: "0 < n" using assms by simp
  have "(m + ?i) mod n = (m mod n + (k + (n - m mod n))) mod n"
    by (simp add: mod_add_left_eq mod_add_right_eq)
  also have "m mod n + (k + (n - m mod n)) = k + n"
  proof -
    have "m mod n < n" using n by simp
    then show ?thesis by arith
  qed
  also have "(k + n) mod n = k" using assms by simp
  finally have "(m + ?i) mod n = k" .
  moreover have "?i < n" using n by simp
  ultimately show ?thesis by blast
qed

lemma chooseTarget_preferred_normal:
  "find (\<lambda>pc. pc \<in> set cs \<and> isNormalAt b pc) pf = Some pc \<Longrightarrow> chooseTarget b pf cs = Some pc"
  by (simp add: chooseTarget_def)

lemma chooseTarget_preferred_any:
  "find (\<lambda>pc. pc \<in> set cs \<and> isNormalAt b pc) pf = None \<Longrightarrow> find (\<lambda>pc. pc \<in> set cs) pf = Some pc
   \<Longrightarrow> chooseTarget b pf cs = Some pc"
  by (simp add: chooseTarget_def)

lemma chooseTarget_middle:
  assumes "find (\<lambda>pc. pc \<in> set cs) pf = None" and "cs \<noteq> []"
  shows "\<exists>i < length cs.
           chooseTarget b pf cs = Some (cs ! ((length cs div 2 + i) mod length cs))
           \<and> (\<forall>j < i. \<not> isNormalAt b (cs ! ((length cs div 2 + j) mod length cs)))
           \<and> (isNormalAt b (cs ! ((length cs div 2 + i) mod length cs))
                \<or> i = 0 \<and> (\<forall>c \<in> set cs. \<not> isNormalAt b c))"
proof -
  let ?len = "length cs"
  let ?mid = "?len div 2"
  let ?f = "\<lambda>i. (?mid + i) mod ?len"
  have len: "0 < ?len" using assms(2) by simp
  have n1: "find (\<lambda>pc. pc \<in> set cs \<and> isNormalAt b pc) pf = None"
    using assms(1) by (auto simp: find_None_iff)
  show ?thesis
  proof (cases "find (\<lambda>idx. isNormalAt b (cs ! idx)) (map ?f [0..<?len])")
    case (Some idx)
    from find_map_upt[OF Some] obtain i where i: "i < ?len" "idx = ?f i"
      "isNormalAt b (cs ! ?f i)" "\<forall>j < i. \<not> isNormalAt b (cs ! ?f j)" by blast
    have "chooseTarget b pf cs = Some (cs ! ?f i)"
      using n1 assms(1) Some i(2) by (simp add: chooseTarget_def Let_def)
    then show ?thesis using i by blast
  next
    case None
    have none: "\<forall>c \<in> set cs. \<not> isNormalAt b c"
    proof
      fix c assume "c \<in> set cs"
      then obtain k where k: "k < ?len" "c = cs ! k" by (auto simp: in_set_conv_nth)
      from rotation_covers[OF k(1), of ?mid] obtain i where i: "i < ?len" "?f i = k" by blast
      from None have "\<not> isNormalAt b (cs ! ?f i)" using i(1) by (auto simp: find_None_iff)
      then show "\<not> isNormalAt b c" using i(2) k(2) by simp
    qed
    have "chooseTarget b pf cs = Some (cs ! ?mid)"
      using n1 assms(1) None len by (simp add: chooseTarget_def Let_def)
    moreover have "?f 0 = ?mid" using len by simp
    ultimately show ?thesis using none len by (intro exI[of _ 0]) simp
  qed
qed

lemma putCreation_supersede:
  "map_of out k = Some (ROCKET, c') \<Longrightarrow> map_of (putCreation out k BOMB c) k = Some (BOMB, c)"
proof -
  assume h: "map_of out k = Some (ROCKET, c')"
  have "map_of out k \<noteq> None \<Longrightarrow>
        map_of (map (\<lambda>e. if fst e = k then (k, BOMB, c) else e) out) k = Some (BOMB, c)"
    by (induction out) auto
  then show ?thesis using h by (simp add: putCreation_def)
qed

lemma putCreation_keys:
  "map fst (putCreation out k knd c) = (if map_of out k = None then map fst out @ [k] else map fst out)"
proof -
  have "map fst (map (\<lambda>e. if fst e = k then (k, knd, c) else e) out) = map fst out"
    by (induction out) auto
  then show ?thesis by (auto simp: putCreation_def split: option.splits)
qed

lemma map_of_replace:
  "map_of (map (\<lambda>e. if fst e = k then (k, v) else e) out) t
     = (if t = k then (if map_of out k = None then None else Some v) else map_of out t)"
  by (induction out) auto

lemma putCreation_map_of:
  "map_of (putCreation out k knd c) t
     = (if t = k
        then (case map_of out k of
                None \<Rightarrow> Some (knd, c)
              | Some e \<Rightarrow> if fst e = ROCKET \<and> knd = BOMB then Some (knd, c) else Some e)
        else map_of out t)"
proof (cases "map_of out k")
  case None
  then show ?thesis
    by (auto simp: putCreation_def map_add_def split: option.splits)
next
  case (Some e)
  then show ?thesis
    by (simp add: putCreation_def map_of_replace)
qed

lemma planSegment_target:
  assumes "4 \<le> length (cells seg)"
  shows "\<exists>t \<in> set (cells seg). chooseTarget b pf (cells seg) = Some t
           \<and> planSegment b pf out seg
               = putCreation out t (if 5 \<le> length (cells seg) then BOMB else ROCKET) (seg_color seg)"
proof -
  have "cells seg \<noteq> []" using assms by auto
  from chooseTarget_in_run[OF this, of b pf] obtain t where
    t: "t \<in> set (cells seg)" "chooseTarget b pf (cells seg) = Some t" by blast
  then show ?thesis using assms by (auto simp: planSegment_def Let_def)
qed

text \<open>What the planner has recorded after the runs \<open>segs\<close>.\<close>

lemma creations_keys:
  "distinct (map fst (computeSpecialCreations b segs pref))
   \<and> set (map fst (computeSpecialCreations b segs pref))
       = {t. \<exists>s \<in> set segs. 4 \<le> length (cells s)
                \<and> chooseTarget b (preferOrder pref) (cells s) = Some t}"
proof (induction segs rule: rev_induct)
  case Nil
  then show ?case by (simp add: computeSpecialCreations_def)
next
  case (snoc s segs)
  let ?out = "computeSpecialCreations b segs pref"
  show ?case
  proof (cases "4 \<le> length (cells s)")
    case False
    then have "computeSpecialCreations b (segs @ [s]) pref = ?out"
      by (simp add: computeSpecialCreations_snoc planSegment_short)
    then show ?thesis using snoc False by auto
  next
    case True
    from planSegment_target[OF True, of b "preferOrder pref" ?out] obtain t where
      t: "chooseTarget b (preferOrder pref) (cells s) = Some t"
         "computeSpecialCreations b (segs @ [s]) pref
            = putCreation ?out t (if 5 \<le> length (cells s) then BOMB else ROCKET) (seg_color s)"
      by (auto simp: computeSpecialCreations_snoc)
    have n: "(map_of ?out t = None) = (t \<notin> set (map fst ?out))"
      by (simp add: map_of_eq_None_iff)
    show ?thesis
      using snoc True t(1) n unfolding t(2) putCreation_keys
      by (auto split: if_splits)
  qed
qed

lemma creations_entry:
  assumes "map_of (computeSpecialCreations b segs pref) t = Some (k, c)"
  shows "(\<exists>s \<in> set segs. 4 \<le> length (cells s)
            \<and> chooseTarget b (preferOrder pref) (cells s) = Some t
            \<and> k = (if 5 \<le> length (cells s) then BOMB else ROCKET) \<and> c = seg_color s)
       \<and> (k = BOMB) = (\<exists>s \<in> set segs. 5 \<le> length (cells s)
                          \<and> chooseTarget b (preferOrder pref) (cells s) = Some t)"
  using assms
proof (induction segs arbitrary: k c rule: rev_induct)
  case Nil
  then show ?case by (simp add: computeSpecialCreations_def)
next
  case (snoc s segs)
  let ?out = "computeSpecialCreations b segs pref"
  show ?case
  proof (cases "4 \<le> length (cells s)")
    case False
    then have e: "computeSpecialCreations b (segs @ [s]) pref = ?out"
      by (simp add: computeSpecialCreations_snoc planSegment_short)
    from snoc.IH[of k c] snoc.prems False show ?thesis unfolding e by auto
  next
    case True
    let ?knd = "if 5 \<le> length (cells s) then BOMB else ROCKET"
    from planSegment_target[OF True, of b "preferOrder pref" ?out] obtain t0 where
      t0: "chooseTarget b (preferOrder pref) (cells s) = Some t0"
          "computeSpecialCreations b (segs @ [s]) pref = putCreation ?out t0 ?knd (seg_color s)"
      by (auto simp: computeSpecialCreations_snoc)
    show ?thesis
    proof (cases "t = t0")
      case False
      then have "map_of ?out t = Some (k, c)"
        using snoc.prems unfolding t0(2) putCreation_map_of by simp
      from snoc.IH[OF this] False t0(1) show ?thesis by auto
    next
      case eq: True
      show ?thesis
      proof (cases "map_of ?out t0")
        case None
        then have new: "k = ?knd" "c = seg_color s"
          using snoc.prems eq unfolding t0(2) putCreation_map_of by auto
        have "t0 \<notin> set (map fst ?out)" using None by (simp add: map_of_eq_None_iff)
        then have none: "\<not> (\<exists>s' \<in> set segs. 4 \<le> length (cells s')
              \<and> chooseTarget b (preferOrder pref) (cells s') = Some t0)"
          using creations_keys[of b segs pref] by auto
        have none5: "\<not> (\<exists>s' \<in> set segs. 5 \<le> length (cells s')
              \<and> chooseTarget b (preferOrder pref) (cells s') = Some t0)"
          using none by auto
        show ?thesis using new True t0(1) eq none5 by auto
      next
        case (Some e)
        obtain k0 c0 where e: "e = (k0, c0)" by (cases e)
        from snoc.IH[of k0 c0] Some e eq have ih:
          "\<exists>s' \<in> set segs. 4 \<le> length (cells s')
              \<and> chooseTarget b (preferOrder pref) (cells s') = Some t0
              \<and> k0 = (if 5 \<le> length (cells s') then BOMB else ROCKET) \<and> c0 = seg_color s'"
          "(k0 = BOMB) = (\<exists>s' \<in> set segs. 5 \<le> length (cells s')
                          \<and> chooseTarget b (preferOrder pref) (cells s') = Some t0)"
          by auto
        have k0: "k0 = ROCKET \<or> k0 = BOMB" using ih(1) by auto
        show ?thesis
        proof (cases "k0 = ROCKET \<and> ?knd = BOMB")
          case True
          then have "k = BOMB" "c = seg_color s"
            using snoc.prems eq Some e unfolding t0(2) putCreation_map_of by auto
          moreover have "5 \<le> length (cells s)" using True by (auto split: if_splits)
          ultimately show ?thesis using t0(1) eq \<open>4 \<le> length (cells s)\<close> by auto
        next
          case False
          then have kc: "k = k0" "c = c0"
            using snoc.prems eq Some e unfolding t0(2) putCreation_map_of by auto
          have a: "\<exists>s \<in> set (segs @ [s]). 4 \<le> length (cells s)
            \<and> chooseTarget b (preferOrder pref) (cells s) = Some t
            \<and> k = (if 5 \<le> length (cells s) then BOMB else ROCKET) \<and> c = seg_color s"
            using ih(1) kc eq by auto
          have b: "(k = BOMB) = (\<exists>s \<in> set (segs @ [s]). 5 \<le> length (cells s)
                          \<and> chooseTarget b (preferOrder pref) (cells s) = Some t)"
            using ih(2) kc eq False k0 t0(1) by (auto split: if_splits)
          show ?thesis using a b by blast
        qed
      qed
    qed
  qed
qed

lemma creations_unfiltered:
  "computeSpecialCreations b (filter (\<lambda>s. 4 \<le> length (cells s)) segs) pref
     = computeSpecialCreations b segs pref"
proof -
  have "foldl (planSegment b pf) acc (filter (\<lambda>s. 4 \<le> length (cells s)) segs)
      = foldl (planSegment b pf) acc segs" for pf acc
    by (induction segs arbitrary: acc) (simp_all add: planSegment_short)
  then show ?thesis by (simp add: computeSpecialCreations_def)
qed

lemma single_entry:
  "distinct (map fst xs) \<Longrightarrow> map_of xs t = Some v \<Longrightarrow> filter (\<lambda>e. fst e = t) xs = [(t, v)]"
proof (induction xs)
  case Nil
  then show ?case by simp
next
  case (Cons x xs)
  show ?case
  proof (cases "fst x = t")
    case True
    then have "x = (t, v)" using Cons.prems(2) by (cases x) auto
    moreover have "filter (\<lambda>e. fst e = t) xs = []"
    proof -
      have "t \<notin> fst ` set xs" using Cons.prems(1) True by auto
      then have "\<forall>e \<in> set xs. fst e \<noteq> t" by (auto simp: image_iff)
      then show ?thesis by (simp add: filter_empty_conv)
    qed
    ultimately show ?thesis by simp
  next
    case False
    then show ?thesis using Cons by auto
  qed
qed

lemma creation_of_run:
  assumes "seg \<in> set segs" and "4 \<le> length (cells seg)"
  shows "\<exists>t \<in> set (cells seg). \<exists>k c.
           chooseTarget b (preferOrder pref) (cells seg) = Some t
         \<and> map_of (computeSpecialCreations b segs pref) t = Some (k, c)"
proof -
  from planSegment_target[OF assms(2), of b "preferOrder pref" "[]"] obtain t where
    t: "t \<in> set (cells seg)" "chooseTarget b (preferOrder pref) (cells seg) = Some t" by blast
  then have "t \<in> set (map fst (computeSpecialCreations b segs pref))"
    using creations_keys[of b segs pref] assms by blast
  then have "map_of (computeSpecialCreations b segs pref) t \<noteq> None"
    by (simp add: map_of_eq_None_iff)
  then show ?thesis using t by auto
qed

text \<open>
  C5 (amended). In a pass over the runs \<open>segs\<close> with the swap cells \<open>pref\<close>, every
  qualifying run (length at least 4) has a target cell \<open>t\<close> of its own cells at which the
  planner's result holds a creation, and \<open>t\<close> is found with this precedence, the
  preferred cells being the swap's target and then its origin (none in a cascade pass):
  (a) the first preferred cell that lies in the run and holds a normal piece;
  (b) otherwise the first preferred cell that lies in the run;
  (c) otherwise the first cell holding a normal piece that is met from the middle cell
  (index \<open>len div 2\<close>) towards the end of the run and then on from its start, and the
  middle cell itself when the run has no normal piece.
  The creation recorded at \<open>t\<close> is a bomb exactly when one of the runs that chose \<open>t\<close>
  has length 5 or more, and a rocket otherwise: a bomb supersedes a rocket.
\<close>

theorem target_precedence:
  assumes "seg \<in> set segs" and "4 \<le> length (cells seg)"
  shows "preferOrder (Some (origin, target)) = [target, origin] \<and> preferOrder None = []
    \<and> (\<exists>t \<in> set (cells seg). \<exists>k c.
          map_of (computeSpecialCreations b segs pref) t = Some (k, c)
        \<and> (\<forall>pc. find (\<lambda>pc. pc \<in> set (cells seg) \<and> isNormalAt b pc) (preferOrder pref) = Some pc
                \<longrightarrow> t = pc)
        \<and> (find (\<lambda>pc. pc \<in> set (cells seg) \<and> isNormalAt b pc) (preferOrder pref) = None
             \<longrightarrow> (\<forall>pc. find (\<lambda>pc. pc \<in> set (cells seg)) (preferOrder pref) = Some pc \<longrightarrow> t = pc))
        \<and> (find (\<lambda>pc. pc \<in> set (cells seg)) (preferOrder pref) = None
             \<longrightarrow> (\<exists>i < length (cells seg).
                    t = cells seg ! ((length (cells seg) div 2 + i) mod length (cells seg))
                  \<and> (\<forall>j < i. \<not> isNormalAt b
                        (cells seg ! ((length (cells seg) div 2 + j) mod length (cells seg))))
                  \<and> (isNormalAt b t \<or> i = 0 \<and> (\<forall>c \<in> set (cells seg). \<not> isNormalAt b c))))
        \<and> (k = ROCKET \<or> k = BOMB)
        \<and> (k = BOMB) = (\<exists>s \<in> set segs. 5 \<le> length (cells s)
              \<and> chooseTarget b (preferOrder pref) (cells s) = Some t)
        \<and> chooseTarget b (preferOrder pref) (cells seg) = Some t)"
proof -
  let ?pl = "preferOrder pref"
  let ?cs = "cells seg"
  from creation_of_run[OF assms, of b pref] obtain t k c where
    t: "t \<in> set ?cs" "chooseTarget b ?pl ?cs = Some t"
       "map_of (computeSpecialCreations b segs pref) t = Some (k, c)" by blast
  have ne: "?cs \<noteq> []" using assms(2) by auto
  note e = creations_entry[OF t(3)]
  have a: "\<forall>pc. find (\<lambda>pc. pc \<in> set ?cs \<and> isNormalAt b pc) ?pl = Some pc \<longrightarrow> t = pc"
    using chooseTarget_preferred_normal[of ?cs b ?pl] t(2) by auto
  have b: "find (\<lambda>pc. pc \<in> set ?cs \<and> isNormalAt b pc) ?pl = None
             \<longrightarrow> (\<forall>pc. find (\<lambda>pc. pc \<in> set ?cs) ?pl = Some pc \<longrightarrow> t = pc)"
    using chooseTarget_preferred_any[of ?cs b ?pl] t(2) by auto
  have c: "find (\<lambda>pc. pc \<in> set ?cs) ?pl = None
             \<longrightarrow> (\<exists>i < length ?cs.
                    t = ?cs ! ((length ?cs div 2 + i) mod length ?cs)
                  \<and> (\<forall>j < i. \<not> isNormalAt b (?cs ! ((length ?cs div 2 + j) mod length ?cs)))
                  \<and> (isNormalAt b t \<or> i = 0 \<and> (\<forall>c \<in> set ?cs. \<not> isNormalAt b c)))"
  proof
    assume n: "find (\<lambda>pc. pc \<in> set ?cs) ?pl = None"
    from chooseTarget_middle[OF n ne, of b] t(2) show "\<exists>i < length ?cs.
                    t = ?cs ! ((length ?cs div 2 + i) mod length ?cs)
                  \<and> (\<forall>j < i. \<not> isNormalAt b (?cs ! ((length ?cs div 2 + j) mod length ?cs)))
                  \<and> (isNormalAt b t \<or> i = 0 \<and> (\<forall>c \<in> set ?cs. \<not> isNormalAt b c))"
      by auto
  qed
  have k: "k = ROCKET \<or> k = BOMB" using e by auto
  have kb: "(k = BOMB) = (\<exists>s \<in> set segs. 5 \<le> length (cells s)
              \<and> chooseTarget b ?pl (cells s) = Some t)" using e by blast
  have p: "preferOrder (Some (origin, target)) = [target, origin] \<and> preferOrder None = []"
    by (simp add: preferOrder_def)
  have "\<exists>k c. map_of (computeSpecialCreations b segs pref) t = Some (k, c)
        \<and> (\<forall>pc. find (\<lambda>pc. pc \<in> set ?cs \<and> isNormalAt b pc) ?pl = Some pc \<longrightarrow> t = pc)
        \<and> (find (\<lambda>pc. pc \<in> set ?cs \<and> isNormalAt b pc) ?pl = None
             \<longrightarrow> (\<forall>pc. find (\<lambda>pc. pc \<in> set ?cs) ?pl = Some pc \<longrightarrow> t = pc))
        \<and> (find (\<lambda>pc. pc \<in> set ?cs) ?pl = None
             \<longrightarrow> (\<exists>i < length ?cs.
                    t = ?cs ! ((length ?cs div 2 + i) mod length ?cs)
                  \<and> (\<forall>j < i. \<not> isNormalAt b (?cs ! ((length ?cs div 2 + j) mod length ?cs)))
                  \<and> (isNormalAt b t \<or> i = 0 \<and> (\<forall>c \<in> set ?cs. \<not> isNormalAt b c))))
        \<and> (k = ROCKET \<or> k = BOMB)
        \<and> (k = BOMB) = (\<exists>s \<in> set segs. 5 \<le> length (cells s)
              \<and> chooseTarget b ?pl (cells s) = Some t)
        \<and> chooseTarget b ?pl ?cs = Some t"
    by (intro exI[of _ k] exI[of _ c] conjI t(3) a b c k kb t(2))
  then show ?thesis using p t(1) by (intro conjI bexI[of _ t]) simp_all
qed

theorem target_precedence_witness:
  "fourRun \<in> set (findMatchSegments fourBoard) \<and> 4 \<le> length (cells fourRun)
   \<and> (\<exists>c. map_of (computeSpecialCreations fourBoard (findMatchSegments fourBoard)
               (Some ((0, 1), (0, 0)))) (0, 0) = Some (ROCKET, c))
   \<and> computeSpecialCreations fourBoard (findMatchSegments fourBoard) (Some ((0, 1), (0, 0)))
       = [((0, 0), ROCKET, 0)]
   \<and> computeSpecialCreations fourBoard (findMatchSegments fourBoard) (Some ((0, 0), (0, 1)))
       = [((0, 0), ROCKET, 0)]
   \<and> computeSpecialCreations fourBoard (findMatchSegments fourBoard) None
       = [((2, 0), ROCKET, 0)]
   \<and> computeSpecialCreations rocketsInRunBoard (findMatchSegments rocketsInRunBoard)
        (Some ((2, 0), (1, 0))) = [((1, 0), BOMB, 0)]
   \<and> computeSpecialCreations rocketsInRunBoard (findMatchSegments rocketsInRunBoard)
        (Some ((2, 1), (2, 0))) = [((2, 0), BOMB, 0)]"
proof -
  let ?segs = "findMatchSegments fourBoard"
  let ?pref = "Some ((0, 1), (0, 0)) :: (pos \<times> pos) option"
  have m: "fourRun \<in> set ?segs" by code_simp
  have l: "4 \<le> length (cells fourRun)" by code_simp
  note T = target_precedence[OF m l, of _ _ fourBoard ?pref, THEN conjunct2, THEN conjunct2]
  from T obtain t k c where
    t: "map_of (computeSpecialCreations fourBoard ?segs ?pref) t = Some (k, c)"
      "\<forall>pc. find (\<lambda>pc. pc \<in> set (cells fourRun) \<and> isNormalAt fourBoard pc) (preferOrder ?pref) = Some pc
          \<longrightarrow> t = pc"
      "k = ROCKET \<or> k = BOMB"
      "(k = BOMB) = (\<exists>s \<in> set ?segs. 5 \<le> length (cells s)
          \<and> chooseTarget fourBoard (preferOrder ?pref) (cells s) = Some t)"
    by (elim bexE exE conjE) (rule that, assumption+)
  have f: "find (\<lambda>pc. pc \<in> set (cells fourRun) \<and> isNormalAt fourBoard pc) (preferOrder ?pref)
      = Some (0, 0)" by code_simp
  have t0: "t = (0, 0)" using t(2) f by simp
  have nb: "\<not> (\<exists>s \<in> set ?segs. 5 \<le> length (cells s))" by code_simp
  have "k \<noteq> BOMB" using t(4) nb by blast
  then have "k = ROCKET" using t(3) by simp
  then have a: "\<exists>c. map_of (computeSpecialCreations fourBoard ?segs ?pref) (0, 0) = Some (ROCKET, c)"
    using t(1) t0 by blast
  have b: "computeSpecialCreations fourBoard ?segs ?pref = [((0, 0), ROCKET, 0)]" by code_simp
  have c: "computeSpecialCreations fourBoard ?segs (Some ((0, 0), (0, 1))) = [((0, 0), ROCKET, 0)]"
    by code_simp
  have d: "computeSpecialCreations fourBoard ?segs None = [((2, 0), ROCKET, 0)]" by code_simp
  have e: "computeSpecialCreations rocketsInRunBoard (findMatchSegments rocketsInRunBoard)
        (Some ((2, 0), (1, 0))) = [((1, 0), BOMB, 0)]" by code_simp
  have g: "computeSpecialCreations rocketsInRunBoard (findMatchSegments rocketsInRunBoard)
        (Some ((2, 1), (2, 0))) = [((2, 0), BOMB, 0)]" by code_simp
  show ?thesis by (intro conjI m l a b c d e g)
qed

text \<open>
  C5 as stated fails in its clause (c): in the run of the top row the middle cell
  \<open>(2, 0)\<close> and its right neighbour hold rockets, the planner takes \<open>(4, 0)\<close>, two cells
  from the middle, although the normal piece at \<open>(1, 0)\<close> is next to the middle.
\<close>

theorem target_precedence_counterexample:
  "map cells (findMatchSegments rocketsInRunBoard) = [[(0, 0), (1, 0), (2, 0), (3, 0), (4, 0)]]
   \<and> computeSpecialCreations rocketsInRunBoard (findMatchSegments rocketsInRunBoard) None
       = [((4, 0), BOMB, 0)]
   \<and> \<not> isNormalAt rocketsInRunBoard (2, 0)
   \<and> isNormalAt rocketsInRunBoard (1, 0)
   \<and> manhattan (1, 0) (2, 0) = 1
   \<and> manhattan (4, 0) (2, 0) = 2"
  by code_simp

text \<open>
  C6 (amended). For the runs of a pass: runs of length 3 yield no creation (a pass of
  such runs creates nothing, and leaving them out changes nothing). Every run of length
  4 or more has a target cell, and the result holds exactly one creation at that cell.
  When no other qualifying run of the pass chose the same cell, this creation is the
  run's own: a rocket for length 4, a bomb for length 5 or more, in the run's colour.
  Runs that chose the same cell have that single creation between them, a bomb exactly
  when one of them has length 5 or more. Every creation is at the target of a
  qualifying run, and no cell carries two creations.
\<close>

theorem run_length_thresholds:
  "((\<forall>s \<in> set segs. length (cells s) < 4) \<longrightarrow> computeSpecialCreations b segs pref = [])
   \<and> computeSpecialCreations b (filter (\<lambda>s. 4 \<le> length (cells s)) segs) pref
       = computeSpecialCreations b segs pref
   \<and> (seg \<in> set segs \<and> 4 \<le> length (cells seg) \<longrightarrow>
        (\<exists>t \<in> set (cells seg). \<exists>k c.
            chooseTarget b (preferOrder pref) (cells seg) = Some t
          \<and> filter (\<lambda>e. fst e = t) (computeSpecialCreations b segs pref) = [(t, k, c)]
          \<and> (k = ROCKET \<or> k = BOMB)
          \<and> (k = BOMB) = (\<exists>s \<in> set segs. 5 \<le> length (cells s)
                \<and> chooseTarget b (preferOrder pref) (cells s) = Some t)
          \<and> ((\<forall>s \<in> set segs. 4 \<le> length (cells s)
                  \<and> chooseTarget b (preferOrder pref) (cells s) = Some t \<longrightarrow> s = seg)
               \<longrightarrow> k = (if 5 \<le> length (cells seg) then BOMB else ROCKET) \<and> c = seg_color seg)))
   \<and> (\<forall>e \<in> set (computeSpecialCreations b segs pref).
        \<exists>s \<in> set segs. 4 \<le> length (cells s)
          \<and> chooseTarget b (preferOrder pref) (cells s) = Some (fst e))
   \<and> distinct (map fst (computeSpecialCreations b segs pref))"
proof -
  let ?out = "computeSpecialCreations b segs pref"
  let ?pl = "preferOrder pref"
  note keys = creations_keys[of b segs pref]
  have short: "(\<forall>s \<in> set segs. length (cells s) < 4) \<longrightarrow> ?out = []"
  proof
    assume "\<forall>s \<in> set segs. length (cells s) < 4"
    then have "filter (\<lambda>s. 4 \<le> length (cells s)) segs = []"
      by (auto simp: filter_empty_conv)
    then have "computeSpecialCreations b [] pref = ?out"
      using creations_unfiltered[of b segs pref] by simp
    then show "?out = []" by (simp add: computeSpecialCreations_def)
  qed
  have run: "\<exists>t \<in> set (cells seg). \<exists>k c.
            chooseTarget b ?pl (cells seg) = Some t
          \<and> filter (\<lambda>e. fst e = t) ?out = [(t, k, c)]
          \<and> (k = ROCKET \<or> k = BOMB)
          \<and> (k = BOMB) = (\<exists>s \<in> set segs. 5 \<le> length (cells s)
                \<and> chooseTarget b ?pl (cells s) = Some t)
          \<and> ((\<forall>s \<in> set segs. 4 \<le> length (cells s)
                  \<and> chooseTarget b ?pl (cells s) = Some t \<longrightarrow> s = seg)
               \<longrightarrow> k = (if 5 \<le> length (cells seg) then BOMB else ROCKET) \<and> c = seg_color seg)"
    if q: "seg \<in> set segs" "4 \<le> length (cells seg)"
  proof -
    from creation_of_run[OF q, of b pref] obtain t k c where
      t: "t \<in> set (cells seg)" "chooseTarget b ?pl (cells seg) = Some t"
         "map_of ?out t = Some (k, c)" by blast
    note e = creations_entry[OF t(3)]
    have one: "filter (\<lambda>e. fst e = t) ?out = [(t, k, c)]"
      using single_entry[OF _ t(3)] keys by simp
    have k: "k = ROCKET \<or> k = BOMB" using e by auto
    have kb: "(k = BOMB) = (\<exists>s \<in> set segs. 5 \<le> length (cells s)
                \<and> chooseTarget b ?pl (cells s) = Some t)" using e by blast
    have alone: "k = (if 5 \<le> length (cells seg) then BOMB else ROCKET) \<and> c = seg_color seg"
      if "\<forall>s \<in> set segs. 4 \<le> length (cells s) \<and> chooseTarget b ?pl (cells s) = Some t \<longrightarrow> s = seg"
      using e that by blast
    have "\<exists>k c. chooseTarget b ?pl (cells seg) = Some t
          \<and> filter (\<lambda>e. fst e = t) ?out = [(t, k, c)]
          \<and> (k = ROCKET \<or> k = BOMB)
          \<and> (k = BOMB) = (\<exists>s \<in> set segs. 5 \<le> length (cells s)
                \<and> chooseTarget b ?pl (cells s) = Some t)
          \<and> ((\<forall>s \<in> set segs. 4 \<le> length (cells s)
                  \<and> chooseTarget b ?pl (cells s) = Some t \<longrightarrow> s = seg)
               \<longrightarrow> k = (if 5 \<le> length (cells seg) then BOMB else ROCKET) \<and> c = seg_color seg)"
      using alone by (intro exI[of _ k] exI[of _ c] conjI t(2) one k kb impI) blast+
    then show ?thesis using t(1) by (intro bexI[of _ t])
  qed
  have from_run: "\<forall>e \<in> set ?out. \<exists>s \<in> set segs. 4 \<le> length (cells s)
          \<and> chooseTarget b ?pl (cells s) = Some (fst e)"
  proof
    fix e assume "e \<in> set ?out"
    then have "fst e \<in> set (map fst ?out)" by simp
    then show "\<exists>s \<in> set segs. 4 \<le> length (cells s) \<and> chooseTarget b ?pl (cells s) = Some (fst e)"
      using keys by blast
  qed
  have d: "distinct (map fst ?out)" using keys by simp
  show ?thesis
    by (intro conjI short creations_unfiltered from_run d impI run) simp_all
qed

theorem run_length_thresholds_witness:
  "findMatchSegments threeBoard \<noteq> []
   \<and> computeSpecialCreations threeBoard (findMatchSegments threeBoard) None = []
   \<and> findMatchSegments fourBoard = [fourRun]
   \<and> (\<exists>t \<in> set (cells fourRun).
        filter (\<lambda>e. fst e = t) (computeSpecialCreations fourBoard (findMatchSegments fourBoard) None)
          = [(t, ROCKET, 0)])
   \<and> findMatchSegments crossBoard = [fiveRun, crossRun]
   \<and> (\<exists>t \<in> set (cells fiveRun). \<exists>c.
        filter (\<lambda>e. fst e = t) (computeSpecialCreations crossBoard (findMatchSegments crossBoard) None)
          = [(t, BOMB, c)])"
proof -
  have s3: "findMatchSegments threeBoard \<noteq> []" by code_simp
  have l3: "\<forall>s \<in> set (findMatchSegments threeBoard). length (cells s) < 4" by code_simp
  have a: "computeSpecialCreations threeBoard (findMatchSegments threeBoard) None = []"
    using run_length_thresholds[of "findMatchSegments threeBoard" threeBoard None, THEN conjunct1] l3
    by (rule mp)
  have s4: "findMatchSegments fourBoard = [fourRun]" by code_simp
  have l4: "4 \<le> length (cells fourRun)" "\<not> 5 \<le> length (cells fourRun)" "seg_color fourRun = 0"
    by (simp_all add: fourRun_def)
  have q4: "fourRun \<in> set (findMatchSegments fourBoard) \<and> 4 \<le> length (cells fourRun)"
    using l4(1) by (simp add: s4)
  note T4 = run_length_thresholds[of "findMatchSegments fourBoard" fourBoard None fourRun,
      THEN conjunct2, THEN conjunct2, THEN conjunct1, THEN mp, OF q4]
  from T4 obtain t k c where
    t: "t \<in> set (cells fourRun)"
       "filter (\<lambda>e. fst e = t) (computeSpecialCreations fourBoard (findMatchSegments fourBoard) None)
          = [(t, k, c)]"
       "(\<forall>s \<in> set (findMatchSegments fourBoard). 4 \<le> length (cells s)
            \<and> chooseTarget fourBoard (preferOrder None) (cells s) = Some t \<longrightarrow> s = fourRun)
        \<longrightarrow> k = (if 5 \<le> length (cells fourRun) then BOMB else ROCKET) \<and> c = seg_color fourRun"
    by (elim bexE exE conjE) (rule that, assumption+)
  have "\<forall>s \<in> set (findMatchSegments fourBoard). 4 \<le> length (cells s)
            \<and> chooseTarget fourBoard (preferOrder None) (cells s) = Some t \<longrightarrow> s = fourRun"
    by (simp add: s4)
  then have "k = ROCKET \<and> c = 0" using t(3) l4 by simp
  then have b: "\<exists>t \<in> set (cells fourRun).
        filter (\<lambda>e. fst e = t) (computeSpecialCreations fourBoard (findMatchSegments fourBoard) None)
          = [(t, ROCKET, 0)]"
    using t(1) t(2) by blast
  have sx: "findMatchSegments crossBoard = [fiveRun, crossRun]" by code_simp
  have l5: "4 \<le> length (cells fiveRun)" "5 \<le> length (cells fiveRun)" by (simp_all add: fiveRun_def)
  have q5: "fiveRun \<in> set (findMatchSegments crossBoard) \<and> 4 \<le> length (cells fiveRun)"
    using l5(1) by (simp add: sx)
  note T5 = run_length_thresholds[of "findMatchSegments crossBoard" crossBoard None fiveRun,
      THEN conjunct2, THEN conjunct2, THEN conjunct1, THEN mp, OF q5]
  from T5 obtain t' k' c' where
    t': "t' \<in> set (cells fiveRun)"
       "chooseTarget crossBoard (preferOrder None) (cells fiveRun) = Some t'"
       "filter (\<lambda>e. fst e = t') (computeSpecialCreations crossBoard (findMatchSegments crossBoard) None)
          = [(t', k', c')]"
       "(k' = BOMB) = (\<exists>s \<in> set (findMatchSegments crossBoard). 5 \<le> length (cells s)
            \<and> chooseTarget crossBoard (preferOrder None) (cells s) = Some t')"
    by (elim bexE exE conjE) (rule that, assumption+)
  have "\<exists>s \<in> set (findMatchSegments crossBoard). 5 \<le> length (cells s)
            \<and> chooseTarget crossBoard (preferOrder None) (cells s) = Some t'"
    using t'(2) l5(2) by (simp add: sx)
  then have "k' = BOMB" using t'(4) by simp
  then have c: "\<exists>t \<in> set (cells fiveRun). \<exists>c.
        filter (\<lambda>e. fst e = t) (computeSpecialCreations crossBoard (findMatchSegments crossBoard) None)
          = [(t, BOMB, c)]"
    using t'(1) t'(3) by blast
  show ?thesis by (intro conjI s3 a s4 b sx c)
qed

text \<open>
  C6 as stated fails: on the crossing board the detector finds a run of five in row 2
  and a run of four in column 2, both choose the cell \<open>(2, 2)\<close>, and the pass creates
  one bomb and no rocket.
\<close>

theorem run_length_thresholds_counterexample:
  "map (length \<circ> cells) (findMatchSegments crossBoard) = [5, 4]
   \<and> findMatchSegments crossBoard = [fiveRun, crossRun]
   \<and> computeSpecialCreations crossBoard (findMatchSegments crossBoard) None = [((2, 2), BOMB, 0)]"
  by code_simp

section \<open>Run detector\<close>

lemma scanStep_map:
  "scanStep col mk (rc, rs, segs @ map (\<lambda>(a, e, c). mk a e c) ivs) i
     = (let r = scanStep col bounds (rc, rs, ivs) i
        in (fst r, fst (snd r), segs @ map (\<lambda>(a, e, c). mk a e c) (snd (snd r))))"
  by (auto simp: scanStep_def Let_def bounds_def split: option.splits)

lemma scan_fold_map:
  "foldl (scanStep col mk) (rc, rs, segs @ map (\<lambda>(a, e, c). mk a e c) ivs) ns
     = (let r = foldl (scanStep col bounds) (rc, rs, ivs) ns
        in (fst r, fst (snd r), segs @ map (\<lambda>(a, e, c). mk a e c) (snd (snd r))))"
proof (induction ns arbitrary: rc rs ivs)
  case Nil
  then show ?case by simp
next
  case (Cons n ns)
  obtain rc' rs' ivs' where r: "scanStep col bounds (rc, rs, ivs) n = (rc', rs', ivs')"
    by (cases "scanStep col bounds (rc, rs, ivs) n") auto
  have "scanStep col mk (rc, rs, segs @ map (\<lambda>(a, e, c). mk a e c) ivs) n
      = (rc', rs', segs @ map (\<lambda>(a, e, c). mk a e c) ivs')"
    using r by (simp add: scanStep_map)
  then show ?case using Cons.IH[of rc' rs' ivs'] r by simp
qed

lemma scanLine_map:
  "scanLine col mk segs = segs @ map (\<lambda>(a, e, c). mk a e c) (scanLine col bounds [])"
  using scan_fold_map[of col mk None 0 segs "[]" "[0..<nat GRID + 1]"]
  by (simp add: scanLine_def Let_def)

lemma scanState_Suc: "scanState col (Suc n) = scanStep col bounds (scanState col n) n"
  by (simp add: scanState_def)

lemma ordered_snoc:
  "ordered (ivs @ [iv]) = (ordered ivs \<and> (\<forall>iv' \<in> set ivs. fst (snd iv') \<le> fst iv))"
  by (induction ivs) auto

lemma scanState_inv:
  "(case scanState col n of (rc, rs, ivs) \<Rightarrow>
      rs \<le> n \<and> (\<forall>j. rs \<le> j \<and> j < n \<longrightarrow> lineColor col j = rc)
      \<and> (\<forall>iv \<in> set ivs. goodRun col rs iv) \<and> ordered ivs)"
proof (induction n)
  case 0
  then show ?case by (simp add: scanState_def)
next
  case (Suc n)
  obtain rc rs ivs where s: "scanState col n = (rc, rs, ivs)"
    by (cases "scanState col n") auto
  from Suc s have inv: "rs \<le> n" "\<forall>j. rs \<le> j \<and> j < n \<longrightarrow> lineColor col j = rc"
    "\<forall>iv \<in> set ivs. goodRun col rs iv" "ordered ivs" by auto
  have mono: "\<forall>iv \<in> set ivs. goodRun col n iv"
    using inv(1,3) by (auto simp: goodRun_def)
  show ?case
  proof (cases "lineColor col n = rc")
    case True
    then have "scanState col (Suc n) = (rc, rs, ivs)"
      by (simp add: scanState_Suc s scanStep_def lineColor_def)
    then show ?thesis using inv True by (auto simp: less_Suc_eq)
  next
    case False
    show ?thesis
    proof (cases "\<exists>c. rc = Some c \<and> 3 \<le> n - rs")
      case True
      then obtain c where c: "rc = Some c" "3 \<le> n - rs" by blast
      have st: "scanState col (Suc n) = (lineColor col n, n, ivs @ [(rs, n, c)])"
        using False c by (simp add: scanState_Suc s scanStep_def lineColor_def bounds_def)
      have g: "goodRun col n (rs, n, c)"
        using c inv(2) by (auto simp: goodRun_def)
      have o: "ordered (ivs @ [(rs, n, c)])"
        using inv(3,4) by (auto simp: ordered_snoc goodRun_def)
      show ?thesis unfolding st using g o mono by (auto simp: less_Suc_eq)
    next
      case nc: False
      have st: "scanState col (Suc n) = (lineColor col n, n, ivs)"
        using False nc by (auto simp: scanState_Suc s scanStep_def lineColor_def split: option.splits)
      show ?thesis unfolding st using mono inv(4) by (auto simp: less_Suc_eq)
    qed
  qed
qed

lemma scanLine_bounds: "scanLine col bounds [] = snd (snd (scanState col (nat GRID + 1)))"
  by (simp add: scanLine_def scanState_def)

lemma lineColor_sentinel: "lineColor col (nat GRID) = None"
  by (simp add: lineColor_def GRID_def)

lemma scan_runs_good:
  assumes "iv \<in> set (scanLine col bounds [])"
  shows "goodRun col (nat GRID) iv"
proof -
  obtain rc rs ivs where s: "scanState col (nat GRID + 1) = (rc, rs, ivs)"
    by (cases "scanState col (nat GRID + 1)") auto
  from scanState_inv[where col = col and n = "nat GRID + 1"] s
  have inv: "rs \<le> nat GRID + 1" "\<forall>iv \<in> set ivs. goodRun col rs iv" by auto
  have "iv \<in> set ivs" using assms s by (simp add: scanLine_bounds)
  with inv have g: "goodRun col (nat GRID + 1) iv" by (auto simp: goodRun_def)
  obtain a e c where iv: "iv = (a, e, c)" by (cases iv)
  have "e \<le> nat GRID"
  proof (rule ccontr)
    assume "\<not> e \<le> nat GRID"
    then have "a \<le> nat GRID \<and> nat GRID < e" using g by (auto simp: goodRun_def iv)
    then have "lineColor col (nat GRID) = Some c" using g by (auto simp: goodRun_def iv)
    then show False by (simp add: lineColor_sentinel)
  qed
  then show ?thesis using g by (auto simp: goodRun_def iv)
qed

lemma scan_runs_ordered: "ordered (scanLine col bounds [])"
proof -
  obtain rc rs ivs where s: "scanState col (nat GRID + 1) = (rc, rs, ivs)"
    by (cases "scanState col (nat GRID + 1)") auto
  from scanState_inv[where col = col and n = "nat GRID + 1"] s have "ordered ivs" by auto
  then show ?thesis using s by (simp add: scanLine_bounds)
qed

lemma goodRun_triple: "goodRun col (nat GRID) (a, e, c) \<Longrightarrow> tripleAt col a"
proof -
  assume g: "goodRun col (nat GRID) (a, e, c)"
  then have b: "a + 3 \<le> e" "e \<le> nat GRID"
    and c: "\<forall>j. a \<le> j \<and> j < e \<longrightarrow> lineColor col j = Some c" by (auto simp: goodRun_def)
  have "lineColor col a = Some c" "lineColor col (a + 1) = Some c" "lineColor col (a + 2) = Some c"
    using b c by auto
  moreover have "int a + 2 < GRID" using b by (simp add: GRID_def)
  ultimately show ?thesis by (auto simp: tripleAt_def lineColor_def split: if_splits)
qed

lemma lineHasRun_iff: "lineHasRun col = (\<exists>i. tripleAt col i)"
  by (auto simp: lineHasRun_def list_ex_iff tripleAt_def GRID_def)

lemma scan_sound: "scanLine col bounds [] \<noteq> [] \<Longrightarrow> lineHasRun col"
proof -
  assume "scanLine col bounds [] \<noteq> []"
  then obtain iv where iv: "iv \<in> set (scanLine col bounds [])" by (cases "scanLine col bounds []") auto
  obtain a e c where "iv = (a, e, c)" by (cases iv)
  with scan_runs_good[OF iv] have "tripleAt col a" by (auto intro: goodRun_triple)
  then show ?thesis by (auto simp: lineHasRun_iff)
qed

lemma scan_complete_inv:
  assumes "tripleAt col i"
  shows "(case scanState col n of (rc, rs, ivs) \<Rightarrow> ivs \<noteq> [] \<or> n \<le> i \<or> rs \<le> i)"
proof (induction n)
  case 0
  then show ?case by (simp add: scanState_def)
next
  case (Suc n)
  obtain rc rs ivs where s: "scanState col n = (rc, rs, ivs)"
    by (cases "scanState col n") auto
  from scanState_inv[where col = col and n = n] s have inv: "rs \<le> n" "\<forall>j. rs \<le> j \<and> j < n \<longrightarrow> lineColor col j = rc"
    by auto
  from Suc s have ih: "ivs \<noteq> [] \<or> n \<le> i \<or> rs \<le> i" by simp
  from assms obtain c where t: "int i + 2 < GRID" "lineColor col i = Some c"
    "lineColor col (i + 1) = Some c" "lineColor col (i + 2) = Some c"
    by (auto simp: tripleAt_def lineColor_def)
  show ?case
  proof (cases "lineColor col n = rc")
    case True
    then have "scanState col (Suc n) = (rc, rs, ivs)"
      by (simp add: scanState_Suc s scanStep_def lineColor_def)
    then show ?thesis using ih inv(1) by auto
  next
    case False
    show ?thesis
    proof (cases "ivs \<noteq> [] \<or> n \<le> i")
      case True
      then show ?thesis using False
        by (auto simp: scanState_Suc s scanStep_def lineColor_def split: option.splits)
    next
      case nf: False
      then have r: "rs \<le> i" "i < n" using ih by auto
      then have rc: "rc = Some c" using inv(2) t(2) by auto
      have "n \<noteq> i + 1" "n \<noteq> i + 2" using False rc t by auto
      then have "3 \<le> n - rs" using r by simp
      then have "scanState col (Suc n) = (lineColor col n, n, ivs @ [(rs, n, c)])"
        using False rc by (simp add: scanState_Suc s scanStep_def lineColor_def bounds_def)
      then show ?thesis by simp
    qed
  qed
qed

lemma scan_complete: "lineHasRun col \<Longrightarrow> scanLine col bounds [] \<noteq> []"
proof -
  assume "lineHasRun col"
  then obtain i where i: "tripleAt col i" by (auto simp: lineHasRun_iff)
  obtain rc rs ivs where s: "scanState col (nat GRID + 1) = (rc, rs, ivs)"
    by (cases "scanState col (nat GRID + 1)") auto
  from scanState_inv[where col = col and n = "nat GRID + 1"] s
  have inv: "\<forall>j. rs \<le> j \<and> j < nat GRID + 1 \<longrightarrow> lineColor col j = rc" by auto
  from scan_complete_inv[OF i, of "nat GRID + 1"] s
  have c: "ivs \<noteq> [] \<or> nat GRID + 1 \<le> i \<or> rs \<le> i" by simp
  have lt: "i < nat GRID" using i by (auto simp: tripleAt_def)
  have "ivs \<noteq> []"
  proof (rule ccontr)
    assume "\<not> ivs \<noteq> []"
    with c lt have r: "rs \<le> i" by auto
    then have "lineColor col i = rc" "lineColor col (nat GRID) = rc" using inv lt by auto
    moreover have "lineColor col i \<noteq> None" using i lt by (auto simp: tripleAt_def lineColor_def)
    ultimately show False by (simp add: lineColor_sentinel)
  qed
  then show ?thesis using s by (simp add: scanLine_bounds)
qed

lemma foldl_scanRow:
  "foldl (scanRow b) segs ys
     = segs @ concat (map (\<lambda>y. map (\<lambda>(a, e, c). hSegment y a e c) (rowRuns b y)) ys)"
proof (induction ys arbitrary: segs)
  case Nil
  then show ?case by simp
next
  case (Cons y ys)
  have "scanRow b segs y = segs @ map (\<lambda>(a, e, c). hSegment y a e c) (rowRuns b y)"
    unfolding scanRow_def rowRuns_def by (rule scanLine_map)
  then show ?case using Cons.IH by simp
qed

lemma foldl_scanColumn:
  "foldl (scanColumn b) segs xs
     = segs @ concat (map (\<lambda>x. map (\<lambda>(a, e, c). vSegment x a e c) (colRuns b x)) xs)"
proof (induction xs arbitrary: segs)
  case Nil
  then show ?case by simp
next
  case (Cons x xs)
  have "scanColumn b segs x = segs @ map (\<lambda>(a, e, c). vSegment x a e c) (colRuns b x)"
    unfolding scanColumn_def colRuns_def by (rule scanLine_map)
  then show ?case using Cons.IH by simp
qed

lemma findMatchSegments_split:
  "findMatchSegments b
     = concat (map (\<lambda>y. map (\<lambda>(a, e, c). hSegment y a e c) (rowRuns b y)) [0..<nat GRID])
       @ concat (map (\<lambda>x. map (\<lambda>(a, e, c). vSegment x a e c) (colRuns b x)) [0..<nat GRID])"
  by (simp add: findMatchSegments_def foldl_scanRow foldl_scanColumn)

lemma findMatchSegments_empty_iff: "(findMatchSegments b = []) = (\<not> hasRun b)"
proof -
  have r: "(rowRuns b y = []) = (\<not> lineHasRun (\<lambda>x. colorAtCell b (int x) (int y)))" for y
    unfolding rowRuns_def using scan_sound scan_complete by blast
  have c: "(colRuns b x = []) = (\<not> lineHasRun (\<lambda>y. colorAtCell b (int x) (int y)))" for x
    unfolding colRuns_def using scan_sound scan_complete by blast
  show ?thesis
    unfolding findMatchSegments_split hasRun_def list_ex_iff
    using r c by auto
qed

section \<open>Every pass with a run clears a cell\<close>

lemma findMatchSegments_hv: "findMatchSegments b = horizontalSegments b @ verticalSegments b"
  by (simp add: findMatchSegments_split horizontalSegments_def verticalSegments_def)

lemma ordered_distinct:
  "ordered ivs \<Longrightarrow> distinct (concat (map (\<lambda>iv. [fst iv..<fst (snd iv)]) ivs))"
proof (induction ivs)
  case Nil
  then show ?case by simp
next
  case (Cons iv ivs)
  have "set [fst iv..<fst (snd iv)] \<inter> set (concat (map (\<lambda>iv. [fst iv..<fst (snd iv)]) ivs)) = {}"
    using Cons.prems by fastforce
  then show ?case using Cons by simp
qed

lemma distinct_concat_map:
  assumes "distinct ys" and "\<And>y. y \<in> set ys \<Longrightarrow> distinct (f y)"
    and "\<And>y y'. y \<in> set ys \<Longrightarrow> y' \<in> set ys \<Longrightarrow> y \<noteq> y' \<Longrightarrow> set (f y) \<inter> set (f y') = {}"
  shows "distinct (concat (map f ys))"
  using assms
proof (induction ys)
  case Nil
  then show ?case by simp
next
  case (Cons y ys)
  have "set (f y) \<inter> set (concat (map f ys)) = {}"
  proof -
    have "\<And>y'. y' \<in> set ys \<Longrightarrow> set (f y) \<inter> set (f y') = {}"
      using Cons.prems(1,3) by auto
    then show ?thesis by auto
  qed
  moreover have "distinct (concat (map f ys))"
    using Cons by auto
  ultimately show ?case using Cons.prems(2) by simp
qed

lemma concat_map_concat:
  "concat (map h (concat (map g ys))) = concat (map (\<lambda>y. concat (map h (g y))) ys)"
  by (induction ys) auto


lemma line_cells:
  assumes mk: "\<And>a e c. cells (mk a e c) = map cellOf [a..<e]"
  shows "concat (map cells (map (\<lambda>(a, e, c). mk a e c) ivs))
     = map cellOf (concat (map (\<lambda>iv. [fst iv..<fst (snd iv)]) ivs))"
  by (induction ivs) (auto simp: mk)

lemma line_cells_distinct:
  assumes mk: "\<And>a e c. cells (mk a e c) = map cellOf [a..<e]" and "inj cellOf"
  shows "distinct (concat (map cells (map (\<lambda>(a, e, c). mk a e c) (scanLine col bounds []))))"
  unfolding line_cells[of mk cellOf, OF mk]
  using ordered_distinct[OF scan_runs_ordered[of col]] assms(2)
  by (simp add: distinct_map inj_on_def)

lemma line_cells_subset:
  assumes mk: "\<And>a e c. cells (mk a e c) = map cellOf [a..<e]"
  shows "set (concat (map cells (map (\<lambda>(a, e, c). mk a e c) (scanLine col bounds []))))
     \<subseteq> cellOf ` {j. j < nat GRID \<and> col j \<noteq> None}"
proof
  fix k assume "k \<in> set (concat (map cells (map (\<lambda>(a, e, c). mk a e c) (scanLine col bounds []))))"
  then obtain a e c j where iv: "(a, e, c) \<in> set (scanLine col bounds [])" and j: "a \<le> j" "j < e"
    and k: "k = cellOf j" by (auto simp: mk)
  from scan_runs_good[OF iv] j have "j < nat GRID" "lineColor col j = Some c"
    by (auto simp: goodRun_def)
  then have "col j \<noteq> None" by (auto simp: lineColor_def split: if_splits)
  then show "k \<in> cellOf ` {j. j < nat GRID \<and> col j \<noteq> None}" using k \<open>j < nat GRID\<close> by blast
qed

lemma hSegment_cells: "cells (hSegment y a e c) = map (\<lambda>j. (int j, int y)) [a..<e]"
  by (simp add: hSegment_def)

lemma vSegment_cells: "cells (vSegment x a e c) = map (\<lambda>j. (int x, int j)) [a..<e]"
  by (simp add: vSegment_def)

lemma horizontal_distinct: "distinct (concat (map cells (horizontalSegments b)))"
proof -
  let ?f = "\<lambda>y. concat (map cells (map (\<lambda>(a, e, c). hSegment y a e c) (rowRuns b y)))"
  have eq: "concat (map cells (horizontalSegments b)) = concat (map ?f [0..<nat GRID])"
    by (simp only: horizontalSegments_def concat_map_concat)
  have d: "distinct (?f y)" for y
    unfolding rowRuns_def
    by (rule line_cells_distinct[OF hSegment_cells]) (auto simp: inj_on_def)
  have s: "set (?f y) \<subseteq> {k. snd k = int y}" for y
    using line_cells_subset[of "hSegment y" "\<lambda>j. (int j, int y)", OF hSegment_cells]
    unfolding rowRuns_def by fastforce
  have "distinct (concat (map ?f [0..<nat GRID]))"
  proof (rule distinct_concat_map)
    show "distinct [0..<nat GRID]" by simp
    show "\<And>y. distinct (?f y)" by (rule d)
    fix y y' :: nat assume "y \<noteq> y'"
    then have "{k :: pos. snd k = int y} \<inter> {k. snd k = int y'} = {}" by auto
    with s[of y] s[of y'] show "set (?f y) \<inter> set (?f y') = {}" by blast
  qed
  then show ?thesis by (simp only: eq)
qed


lemma vertical_distinct: "distinct (concat (map cells (verticalSegments b)))"
proof -
  let ?f = "\<lambda>x. concat (map cells (map (\<lambda>(a, e, c). vSegment x a e c) (colRuns b x)))"
  have eq: "concat (map cells (verticalSegments b)) = concat (map ?f [0..<nat GRID])"
    by (simp only: verticalSegments_def concat_map_concat)
  have d: "distinct (?f x)" for x
    unfolding colRuns_def
    by (rule line_cells_distinct[OF vSegment_cells]) (auto simp: inj_on_def)
  have s: "set (?f x) \<subseteq> {k. fst k = int x}" for x
    using line_cells_subset[of "vSegment x" "\<lambda>j. (int x, int j)", OF vSegment_cells]
    unfolding colRuns_def by fastforce
  have "distinct (concat (map ?f [0..<nat GRID]))"
  proof (rule distinct_concat_map)
    show "distinct [0..<nat GRID]" by simp
    show "\<And>x. distinct (?f x)" by (rule d)
    fix x x' :: nat assume "x \<noteq> x'"
    then have "{k :: pos. fst k = int x} \<inter> {k. fst k = int x'} = {}" by auto
    with s[of x] s[of x'] show "set (?f x) \<inter> set (?f x') = {}" by blast
  qed
  then show ?thesis by (simp only: eq)
qed

lemma horizontal_ok: "s \<in> set (horizontalSegments b) \<Longrightarrow> segment_ok b s"
proof -
  assume "s \<in> set (horizontalSegments b)"
  then obtain y a e c where y: "y < nat GRID" and iv: "(a, e, c) \<in> set (rowRuns b y)"
    and s: "s = hSegment y a e c" by (auto simp: horizontalSegments_def)
  from scan_runs_good[OF iv[unfolded rowRuns_def]]
  have g: "a + 3 \<le> e" "e \<le> nat GRID"
    "\<forall>j. a \<le> j \<and> j < e \<longrightarrow> lineColor (\<lambda>x. colorAtCell b (int x) (int y)) j = Some c"
    by (auto simp: goodRun_def)
  have "\<forall>j. a \<le> j \<and> j < e \<longrightarrow> isInBounds (int j) (int y) \<and> colorAtCell b (int j) (int y) = Some c"
    using g y by (auto simp: lineColor_def isInBounds_def GRID_def split: if_splits)
  then show ?thesis using g(1) by (auto simp: segment_ok_def s hSegment_def)
qed

lemma vertical_ok: "s \<in> set (verticalSegments b) \<Longrightarrow> segment_ok b s"
proof -
  assume "s \<in> set (verticalSegments b)"
  then obtain x a e c where x: "x < nat GRID" and iv: "(a, e, c) \<in> set (colRuns b x)"
    and s: "s = vSegment x a e c" by (auto simp: verticalSegments_def)
  from scan_runs_good[OF iv[unfolded colRuns_def]]
  have g: "a + 3 \<le> e" "e \<le> nat GRID"
    "\<forall>j. a \<le> j \<and> j < e \<longrightarrow> lineColor (\<lambda>y. colorAtCell b (int x) (int y)) j = Some c"
    by (auto simp: goodRun_def)
  have "\<forall>j. a \<le> j \<and> j < e \<longrightarrow> isInBounds (int x) (int j) \<and> colorAtCell b (int x) (int j) = Some c"
    using g x by (auto simp: lineColor_def isInBounds_def GRID_def split: if_splits)
  then show ?thesis using g(1) by (auto simp: segment_ok_def s vSegment_def)
qed

lemma segments_ok: "s \<in> set (findMatchSegments b) \<Longrightarrow> segment_ok b s"
  using horizontal_ok vertical_ok by (auto simp: findMatchSegments_hv)

lemma putCreation_length: "length (putCreation out k knd c) \<le> Suc (length out)"
  by (auto simp: putCreation_def split: option.splits)

lemma planSegment_length: "length (planSegment b pf out seg) \<le> Suc (length out)"
  using putCreation_length[of out]
  by (auto simp: planSegment_def Let_def split: option.splits)

lemma creations_length: "length (computeSpecialCreations b segs pref) \<le> length segs"
proof (induction segs rule: rev_induct)
  case Nil
  then show ?case by (simp add: computeSpecialCreations_def)
next
  case (snoc seg segs)
  have "length (computeSpecialCreations b (segs @ [seg]) pref)
      \<le> Suc (length (computeSpecialCreations b segs pref))"
    unfolding computeSpecialCreations_snoc by (rule planSegment_length)
  then show ?case using snoc by simp
qed

lemma cells_total: "\<forall>s \<in> set A. 3 \<le> length (cells s) \<Longrightarrow> 3 * length A \<le> length (concat (map cells A))"
  by (induction A) auto

lemma exists_unprotected:
  assumes "distinct (concat (map cells A))" and "\<forall>s \<in> set A. 3 \<le> length (cells s)"
    and "A \<noteq> []" and "length P \<le> 2 * length A"
  shows "\<exists>k \<in> set (concat (map cells A)). k \<notin> set P"
proof (rule ccontr)
  assume "\<not> (\<exists>k \<in> set (concat (map cells A)). k \<notin> set P)"
  then have "set (concat (map cells A)) \<subseteq> set P" by blast
  then have "card (set (concat (map cells A))) \<le> card (set P)" by (intro card_mono) auto
  also have "\<dots> \<le> length P" by (rule card_length)
  finally have "card (set (concat (map cells A))) \<le> length P" .
  then have "length (concat (map cells A)) \<le> length P"
    by (simp only: distinct_card[OF assms(1)])
  moreover have "3 * length A \<le> length (concat (map cells A))" using assms(2) by (rule cells_total)
  moreover have "0 < length A" using assms(3) by simp
  ultimately show False using assms(4) by linarith
qed

lemma set_initialClearKeys:
  "set (initialClearKeys segs P) = set (concat (map cells segs)) - set P"
proof -
  have "set (foldl (\<lambda>ck c. if c \<notin> set P then addKey ck c else ck) acc ks) = set acc \<union> (set ks - set P)"
    for acc ks
    by (induction ks arbitrary: acc) (auto simp: addKey_def)
  then show ?thesis by (simp add: initialClearKeys_def)
qed

lemma pass_clears_something:
  assumes "findMatchSegments b \<noteq> []"
  shows "passWillClear b pref \<noteq> []"
proof -
  let ?H = "horizontalSegments b" and ?V = "verticalSegments b"
  let ?segs = "findMatchSegments b"
  let ?P = "map fst (computeSpecialCreations b ?segs pref)"
  have lenP: "length ?P \<le> length ?H + length ?V"
    using creations_length[of b ?segs pref] by (simp add: findMatchSegments_hv)
  have "\<exists>k \<in> set (concat (map cells ?segs)). k \<notin> set ?P"
  proof (cases "length ?V \<le> length ?H")
    case True
    then have "?H \<noteq> []" using assms by (auto simp: findMatchSegments_hv)
    moreover have "\<forall>s \<in> set ?H. 3 \<le> length (cells s)"
      using horizontal_ok by (auto simp: segment_ok_def)
    moreover have "length ?P \<le> 2 * length ?H" using lenP True by simp
    ultimately have "\<exists>k \<in> set (concat (map cells ?H)). k \<notin> set ?P"
      using horizontal_distinct[of b] by (intro exists_unprotected) auto
    then show ?thesis by (auto simp: findMatchSegments_hv)
  next
    case False
    then have "?V \<noteq> []" by auto
    moreover have "\<forall>s \<in> set ?V. 3 \<le> length (cells s)"
      using vertical_ok by (auto simp: segment_ok_def)
    moreover have "length ?P \<le> 2 * length ?V" using lenP False by simp
    ultimately have "\<exists>k \<in> set (concat (map cells ?V)). k \<notin> set ?P"
      using vertical_distinct[of b] by (intro exists_unprotected) auto
    then show ?thesis by (auto simp: findMatchSegments_hv)
  qed
  then obtain k s where k: "s \<in> set ?segs" "k \<in> set (cells s)" "k \<notin> set ?P" by auto
  from segments_ok[OF k(1)] k(2) have occ: "occupiedInBounds b k"
    by (auto simp: segment_ok_def occupiedInBounds_def colorAtCell_def)
  have "k \<in> set (initialClearKeys ?segs ?P)"
    using k by (auto simp: set_initialClearKeys)
  moreover from expand_shape[of b "initialClearKeys ?segs ?P" ?P] obtain ys where
    "expandWithSpecialExplosions b (initialClearKeys ?segs ?P) ?P = initialClearKeys ?segs ?P @ ys"
    by blast
  ultimately have "k \<in> set (expandWithSpecialExplosions b (initialClearKeys ?segs ?P) ?P)" by simp
  then have "k \<in> set (passWillClear b pref)" using occ by (simp add: passWillClear_def Let_def)
  then show ?thesis by auto
qed

section \<open>Collapse and the resolver loop\<close>

lemma length_map_filter_le: "length (List.map_filter f xs) \<le> length xs"
  by (induction xs) (auto simp: List.map_filter_simps split: option.splits)

lemma columnSurvivors_length: "length (columnSurvivors b x) \<le> nat GRID"
  using length_map_filter_le[of "\<lambda>y. cellAt b (int x) (int y)" "rev [0..<nat GRID]"]
  by (simp add: columnSurvivors_def)

lemma spawnPieces_length: "length (fst (spawnPieces rng n g)) = n"
proof (induction n arbitrary: g)
  case 0
  then show ?case by simp
next
  case (Suc n)
  obtain c g1 where r: "randInt rng COLORS_length g = (c, g1)" by (cases "randInt rng COLORS_length g")
  obtain p g2 where m: "makePiece c NORMAL g1 = (p, g2)" by (cases "makePiece c NORMAL g1")
  obtain ps g3 where s: "spawnPieces rng n g2 = (ps, g3)" by (cases "spawnPieces rng n g2")
  have "length ps = n" using Suc[of g2] s by simp
  then show ?case by (simp add: r m s)
qed

lemma collapseColumn_fst:
  "\<exists>col. fst (collapseColumn rng b acc x) = fst acc @ [col] \<and> length col = nat GRID"
proof -
  let ?s = "columnSurvivors b x"
  let ?n = "nat GRID - length ?s"
  have "fst (collapseColumn rng b acc x) = fst acc @ [?s @ fst (spawnPieces rng ?n (snd acc))]"
    by (simp add: collapseColumn_def Let_def split: prod.splits)
  moreover have "length (?s @ fst (spawnPieces rng ?n (snd acc))) = nat GRID"
    using columnSurvivors_length[of b x] by (simp add: spawnPieces_length)
  ultimately show ?thesis by blast
qed

lemma collapse_columns:
  "length (fst (foldl (collapseColumn rng b) acc xs)) = length (fst acc) + length xs
   \<and> (list_all (\<lambda>col. length col = nat GRID) (fst acc)
        \<longrightarrow> list_all (\<lambda>col. length col = nat GRID) (fst (foldl (collapseColumn rng b) acc xs)))"
proof (induction xs arbitrary: acc)
  case Nil
  then show ?case by simp
next
  case (Cons x xs)
  from collapseColumn_fst[of rng b acc x] obtain col where
    c: "fst (collapseColumn rng b acc x) = fst acc @ [col]" "length col = nat GRID" by blast
  show ?case using Cons.IH[of "collapseColumn rng b acc x"] c by simp
qed

lemma collapse_full:
  "wf_board (board (collapseAndFillAnimated rng g)) \<and> full_board (board (collapseAndFillAnimated rng g))"
proof -
  let ?r = "foldl (collapseColumn rng (board g)) ([], g) [0..<nat GRID]"
  have len: "length (fst ?r) = nat GRID" and all: "list_all (\<lambda>col. length col = nat GRID) (fst ?r)"
    using collapse_columns[of rng "board g" "([], g)" "[0..<nat GRID]"] by simp_all
  have b: "board (collapseAndFillAnimated rng g)
      = map (\<lambda>y. map (\<lambda>x. columnCell (fst ?r ! x) y) [0..<nat GRID]) [0..<nat GRID]"
    by (simp add: collapseAndFillAnimated_def Let_def split: prod.splits)
  have cell: "columnCell (fst ?r ! x) y \<noteq> None" if "x < nat GRID" "y < nat GRID" for x y
  proof -
    have "length (fst ?r ! x) = nat GRID" using all len that(1) by (simp add: list_all_length)
    then show ?thesis using that(2) by (simp add: columnCell_def Let_def GRID_def)
  qed
  show ?thesis
    unfolding b using cell by (auto simp: wf_board_def full_board_def list_all_iff)
qed

lemma spawnPieces_frame:
  "isBusy (snd (spawnPieces rng n g)) = isBusy g \<and> score (snd (spawnPieces rng n g)) = score g"
proof (induction n arbitrary: g)
  case 0
  then show ?case by simp
next
  case (Suc n)
  obtain c g1 where r: "randInt rng COLORS_length g = (c, g1)" by (cases "randInt rng COLORS_length g")
  obtain p g2 where m: "makePiece c NORMAL g1 = (p, g2)" by (cases "makePiece c NORMAL g1")
  obtain ps g3 where s: "spawnPieces rng n g2 = (ps, g3)" by (cases "spawnPieces rng n g2")
  have "isBusy g2 = isBusy g" "score g2 = score g"
    using r m by (auto simp: randInt_def makePiece_def)
  then show ?case using Suc[of g2] by (simp add: r m s)
qed

lemma collapseColumn_frame:
  "isBusy (snd (collapseColumn rng b acc x)) = isBusy (snd acc)
   \<and> score (snd (collapseColumn rng b acc x)) = score (snd acc)"
  using spawnPieces_frame[of rng "nat GRID - length (columnSurvivors b x)" "snd acc"]
  by (simp add: collapseColumn_def Let_def split_beta)

lemma collapseColumns_frame:
  "isBusy (snd (foldl (collapseColumn rng b) acc xs)) = isBusy (snd acc)
   \<and> score (snd (foldl (collapseColumn rng b) acc xs)) = score (snd acc)"
  by (induction xs arbitrary: acc) (simp_all add: collapseColumn_frame)

lemma collapse_frame:
  "isBusy (collapseAndFillAnimated rng g) = isBusy g
   \<and> score (collapseAndFillAnimated rng g) = score g"
  using collapseColumns_frame[of rng "board g" "([], g)" "[0..<nat GRID]"]
  by (simp add: collapseAndFillAnimated_def Let_def split_beta)

lemma createSpecial_frame:
  "isBusy (createSpecial g cr) = isBusy g \<and> score (createSpecial g cr) = score g"
  by (simp add: createSpecial_def Let_def makePiece_def)

lemma createSpecials_frame:
  "isBusy (foldl createSpecial g crs) = isBusy g \<and> score (foldl createSpecial g crs) = score g"
  by (induction crs arbitrary: g) (simp_all add: createSpecial_frame)

lemma addScore_frame: "isBusy (addScore d g) = isBusy g"
  by (simp add: addScore_def setScore_def)

lemma resolvePass_None_iff:
  "(resolvePass rng pref g = None) = (findMatchSegments (board g) = [])"
  using pass_clears_something[of "board g" pref]
  by (auto simp: resolvePass_def Let_def)

lemma resolvePass_Some:
  assumes "resolvePass rng pref g = Some g'"
  shows "wf_board (board g') \<and> full_board (board g') \<and> isBusy g' = isBusy g
       \<and> passWillClear (board g) pref \<noteq> []
       \<and> score g' = max 0 (score g + int (length (passWillClear (board g) pref)))"
proof -
  let ?w = "passWillClear (board g) pref"
  let ?g2 = "addScore (int (length ?w)) (g\<lparr>board := clearCells (board g) ?w\<rparr>)"
  let ?g3 = "foldl createSpecial ?g2
      (computeSpecialCreations (board g) (findMatchSegments (board g)) pref)"
  from assms have w: "?w \<noteq> []" and g': "g' = collapseAndFillAnimated rng ?g3"
    by (auto simp: resolvePass_def Let_def split: if_splits)
  have "score ?g2 = max 0 (score g + int (length ?w))"
    using w by (simp add: addScore_def setScore_def)
  then have "score g' = max 0 (score g + int (length ?w))"
    unfolding g' by (simp add: collapse_frame createSpecials_frame)
  moreover have "isBusy g' = isBusy g"
    unfolding g' by (simp add: collapse_frame createSpecials_frame addScore_frame)
  ultimately show ?thesis using w collapse_full[of rng ?g3] unfolding g' by simp
qed

lemma resolve_result:
  assumes "resolveMatchesAnimated rng pref g = Some g'"
  shows "findMatchSegments (board g') = []
       \<and> (g' = g \<or> wf_board (board g') \<and> full_board (board g'))
       \<and> isBusy g' = isBusy g"
proof (rule resolveMatchesAnimated.raw_induct[where P = "\<lambda>rng pref g g'.
          findMatchSegments (board g') = []
          \<and> (g' = g \<or> wf_board (board g') \<and> full_board (board g'))
          \<and> isBusy g' = isBusy g", OF _ assms])
  fix resolve :: "rand_source \<Rightarrow> (pos \<times> pos) option \<Rightarrow> game \<Rightarrow> game option"
  fix rng pref g y
  assume IH: "\<And>rng pref g y. resolve rng pref g = Some y \<Longrightarrow>
      findMatchSegments (board y) = []
      \<and> (y = g \<or> wf_board (board y) \<and> full_board (board y))
      \<and> isBusy y = isBusy g"
  assume eq: "(case resolvePass rng pref g of None \<Rightarrow> Some g
      | Some g' \<Rightarrow> resolve rng None g') = Some y"
  show "findMatchSegments (board y) = []
      \<and> (y = g \<or> wf_board (board y) \<and> full_board (board y))
      \<and> isBusy y = isBusy g"
  proof (cases "resolvePass rng pref g")
    case None
    then have "y = g" using eq by simp
    then show ?thesis using None by (simp add: resolvePass_None_iff)
  next
    case (Some g1)
    then have "resolve rng None g1 = Some y" using eq by simp
    from IH[OF this] resolvePass_Some[OF Some]
    show ?thesis by auto
  qed
qed


lemma set_map_filter: "p \<in> set (List.map_filter f ys) \<Longrightarrow> \<exists>y \<in> set ys. f y = Some p"
  by (induction ys) (auto simp: List.map_filter_simps split: option.splits)












subsection \<open>Score of a resolver pass\<close>

lemma addBlastCells_distinct:
  "distinct (fst acc) \<Longrightarrow> distinct (fst (foldl (addBlastCell P) acc area))"
  by (induction area arbitrary: acc) (auto simp: addBlastCell_def)

lemma explodeKeys_distinct:
  "distinct (fst acc) \<Longrightarrow> distinct (fst (foldl (explodeKey b P) acc ks))"
proof (induction ks arbitrary: acc)
  case Nil
  then show ?case by simp
next
  case (Cons k ks)
  have "distinct (fst (explodeKey b P acc k))"
    using Cons.prems by (auto simp: explodeKey_def addBlastCells_distinct)
  then show ?case using Cons.IH by simp
qed

lemma expand_distinct:
  "distinct ck \<Longrightarrow> distinct (expandWithSpecialExplosions b ck P)"
proof (induction b ck P rule: expandWithSpecialExplosions.induct)
  case (1 b clearKeys protectedKeys)
  have d: "distinct (fst (sweep b protectedKeys clearKeys))"
    using "1.prems" explodeKeys_distinct[of "(clearKeys, False)" b protectedKeys clearKeys]
    by (simp add: sweep_def)
  show ?case
  proof (cases "snd (sweep b protectedKeys clearKeys)")
    case True
    then show ?thesis
      using "1.IH"[OF True d] by (subst expandWithSpecialExplosions.simps) simp
  next
    case False
    then show ?thesis
      using d by (subst expandWithSpecialExplosions.simps) simp
  qed
qed

lemma initialClearKeys_distinct: "distinct (initialClearKeys segs P)"
proof -
  have "distinct acc \<Longrightarrow> distinct (foldl (\<lambda>ck c. if c \<notin> set P then addKey ck c else ck) acc ks)"
    for acc ks
    by (induction ks arbitrary: acc) (auto simp: addKey_def)
  then show ?thesis by (simp add: initialClearKeys_def)
qed

lemma passWillClear_distinct: "distinct (passWillClear b pref)"
  by (simp add: passWillClear_def Let_def expand_distinct initialClearKeys_distinct)

text \<open>
  In a pass of the resolver loop the score grows by the number of pieces destroyed:
  \<open>willClear\<close> comes from a set of keys and lists each cleared cell once.
\<close>

lemma pass_score_counts_destroyed:
  assumes "wf_board (board g)" and "resolvePass rng pref g = Some g'" and "0 \<le> score g"
  shows "score g' - score g
     = int (card {c. cellAt (board g) (fst c) (snd c) \<noteq> None
                   \<and> cellAt (clearCells (board g) (passWillClear (board g) pref)) (fst c) (snd c) = None})"
proof -
  let ?w = "passWillClear (board g) pref"
  have occ: "\<forall>k \<in> set ?w. occupiedInBounds (board g) k"
    by (simp add: passWillClear_def Let_def)
  have "{c. cellAt (board g) (fst c) (snd c) \<noteq> None
          \<and> cellAt (clearCells (board g) ?w) (fst c) (snd c) = None} = set ?w"
    using occ assms(1) by (auto simp: clearCells_cellAt occupiedInBounds_def split: if_splits)
  then have "card {c. cellAt (board g) (fst c) (snd c) \<noteq> None
          \<and> cellAt (clearCells (board g) ?w) (fst c) (snd c) = None} = length ?w"
    using passWillClear_distinct[of "board g" pref] by (simp add: distinct_card)
  moreover have "score g' = score g + int (length ?w)"
    using resolvePass_Some[OF assms(2)] assms(3) by simp
  ultimately show ?thesis by simp
qed

section \<open>Chain expander: fixed point\<close>

text \<open>
  C9. For every initial clear set and protected set, the clear set that the chain
  expander returns is a fixed point: expanding it again returns it unchanged, and a
  further sweep adds no cell. A protected cell is never added (it is in the result only
  if it was in the initial set), and a protected key never explodes.
\<close>

theorem chain_expander_fixed_point:
  "expandWithSpecialExplosions b (expandWithSpecialExplosions b ck P) P
     = expandWithSpecialExplosions b ck P
   \<and> sweep b P (expandWithSpecialExplosions b ck P) = (expandWithSpecialExplosions b ck P, False)
   \<and> (\<forall>c \<in> set P. c \<in> set (expandWithSpecialExplosions b ck P) \<longrightarrow> c \<in> set ck)
   \<and> (\<forall>k \<in> set P. explodeKey b P acc k = acc)"
proof -
  let ?r = "expandWithSpecialExplosions b ck P"
  have nc: "\<not> snd (sweep b P ?r)" by (rule expand_closed)
  then have sw: "sweep b P ?r = (?r, False)"
    using sweep_unchanged[OF nc] by (simp add: prod_eq_iff)
  have fp: "expandWithSpecialExplosions b ?r P = ?r"
    by (subst expandWithSpecialExplosions.simps) (simp add: sw)
  from expand_shape[of b ck P] obtain ys where
    "?r = ck @ ys" "set ys \<subseteq> {c. isInBounds (fst c) (snd c) \<and> c \<notin> set P}" by blast
  then have pr: "\<forall>c \<in> set P. c \<in> set ?r \<longrightarrow> c \<in> set ck" by auto
  have ex: "\<forall>k \<in> set P. explodeKey b P acc k = acc" by (simp add: explodeKey_def)
  show ?thesis using fp sw pr ex by blast
qed

theorem chain_expander_fixed_point_witness:
  "expandWithSpecialExplosions rocketBoard [(3, 3)] [(3, 4)] = [(3, 3), (4, 3), (2, 3), (3, 2)]
   \<and> expandWithSpecialExplosions rocketBoard [(3, 3), (4, 3), (2, 3), (3, 2)] [(3, 4)]
       = [(3, 3), (4, 3), (2, 3), (3, 2)]
   \<and> (3, 4) \<notin> set (expandWithSpecialExplosions rocketBoard [(3, 3)] [(3, 4)])"
proof -
  have e: "expandWithSpecialExplosions rocketBoard [(3, 3)] [(3, 4)] = [(3, 3), (4, 3), (2, 3), (3, 2)]"
    by code_simp
  from chain_expander_fixed_point[of rocketBoard "[(3, 3)]" "[(3, 4)]"]
  have "expandWithSpecialExplosions rocketBoard (expandWithSpecialExplosions rocketBoard [(3, 3)] [(3, 4)]) [(3, 4)]
     = expandWithSpecialExplosions rocketBoard [(3, 3)] [(3, 4)]"
    and "\<forall>c \<in> set [(3, 4)]. c \<in> set (expandWithSpecialExplosions rocketBoard [(3, 3)] [(3, 4)]) \<longrightarrow> c \<in> set [(3, 3)]"
    by blast+
  then show ?thesis unfolding e by simp
qed

section \<open>destroyCells\<close>

text \<open>
  C10. \<open>destroyCells\<close> destroys and counts each distinct in-bounds cell of its argument at
  most once: duplicate coordinates collapse to one destruction, out-of-bounds coordinates
  are ignored, cs that are already empty are not counted, and the returned count is
  the number of cs that changed from occupied to empty.
\<close>

theorem destroyCells_counts_each_cell_once:
  assumes "wf_board b" and "destroyCells b cs = (b', n)"
  shows "n = card {c \<in> set cs. isInBounds (fst c) (snd c) \<and> cellAt b (fst c) (snd c) \<noteq> None}
       \<and> (\<forall>x y. cellAt b' x y = (if (x, y) \<in> set cs \<and> isInBounds x y then None else cellAt b x y))
       \<and> n = card {c. cellAt b (fst c) (snd c) \<noteq> None \<and> cellAt b' (fst c) (snd c) = None}"
proof -
  let ?add = "\<lambda>u c. if \<not> isInBounds (fst c) (snd c) then u else addKey u c"
  let ?uniq = "foldl ?add [] cs"
  have u: "distinct ?uniq" "set ?uniq = {c \<in> set cs. isInBounds (fst c) (snd c)}"
    using uniq_fold[of "[]" cs] by simp_all
  have f: "foldl destroyStep (b, 0) ?uniq = (b', n)"
    using assms(2) by (simp add: destroyCells_def)
  note r = destroy_fold[OF assms(1) u(1) f]
  have cnt: "n = card {c \<in> set cs. isInBounds (fst c) (snd c) \<and> cellAt b (fst c) (snd c) \<noteq> None}"
  proof -
    have "{c \<in> set ?uniq. isInBounds (fst c) (snd c) \<and> cellAt b (fst c) (snd c) \<noteq> None}
        = {c \<in> set cs. isInBounds (fst c) (snd c) \<and> cellAt b (fst c) (snd c) \<noteq> None}"
      unfolding u(2) by blast
    then show ?thesis using r by simp
  qed
  have cs: "\<forall>x y. cellAt b' x y = (if (x, y) \<in> set cs \<and> isInBounds x y then None else cellAt b x y)"
    using r unfolding u(2) by auto
  have "{c. cellAt b (fst c) (snd c) \<noteq> None \<and> cellAt b' (fst c) (snd c) = None}
      = {c \<in> set cs. isInBounds (fst c) (snd c) \<and> cellAt b (fst c) (snd c) \<noteq> None}"
    using cs by (cases, auto)
  then show ?thesis using cnt cs by simp
qed

theorem destroyCells_counts_each_cell_once_witness:
  "wf_board holedBoard \<and> snd (destroyCells holedBoard someCells) = 2
   \<and> card {c. cellAt holedBoard (fst c) (snd c) \<noteq> None
             \<and> cellAt (fst (destroyCells holedBoard someCells)) (fst c) (snd c) = None} = 2"
proof -
  let ?r = "destroyCells holedBoard someCells"
  have wf: "wf_board holedBoard" by code_simp
  have n: "snd ?r = 2" by code_simp
  have e: "?r = (fst ?r, snd ?r)" by simp
  from destroyCells_counts_each_cell_once[OF wf e]
  have c: "snd ?r = card {c. cellAt holedBoard (fst c) (snd c) \<noteq> None
             \<and> cellAt (fst ?r) (fst c) (snd c) = None}" by blast
  have k: "card {c. cellAt holedBoard (fst c) (snd c) \<noteq> None
             \<and> cellAt (fst ?r) (fst c) (snd c) = None} = 2"
    by (rule trans[OF c[symmetric] n])
  show ?thesis by (intro conjI wf n k)
qed

section \<open>Special-piece activation\<close>

lemma detonationClear_board:
  "board (detonationClear p so st g)
     = clearCells (board g) (filter (occupiedInBounds (board g)) (detonationArea p so st))"
  by (simp add: detonationClear_def Let_def)

lemma detonationClear_cellAt:
  assumes "wf_board (board g)"
  shows "cellAt (board (detonationClear p so st g)) x y
     = (if (x, y) \<in> set (detonationArea p so st) \<and> isInBounds x y then None
        else cellAt (board g) x y)"
  using assms
  by (auto simp: detonationClear_board clearCells_cellAt occupiedInBounds_def)

lemma detonationClear_destroyed:
  assumes "wf_board (board g)"
  shows "{c. cellAt (board g) (fst c) (snd c) \<noteq> None
            \<and> cellAt (board (detonationClear p so st g)) (fst c) (snd c) = None}
       = set (filter (occupiedInBounds (board g)) (detonationArea p so st))"
  using assms by (auto simp: detonationClear_cellAt occupiedInBounds_def split: if_splits)

lemma disc_is_bombArea:
  "{c :: pos. (fst c - 3) * (fst c - 3) + (snd c - 3) * (snd c - 3) \<le> 4} = set (bombArea (3, 3))"
proof -
  have "\<And>c :: pos. (fst c - 3) * (fst c - 3) + (snd c - 3) * (snd c - 3) \<le> 4
      \<Longrightarrow> \<exists>dx dy. c = (3 + dx, 3 + dy) \<and> dx * dx + dy * dy \<le> 4"
  proof -
    fix c :: pos assume h: "(fst c - 3) * (fst c - 3) + (snd c - 3) * (snd c - 3) \<le> 4"
    show "\<exists>dx dy. c = (3 + dx, 3 + dy) \<and> dx * dx + dy * dy \<le> 4"
      using h by (intro exI[of _ "fst c - 3"] exI[of _ "snd c - 3"]) (simp add: prod_eq_iff)
  qed
  then show ?thesis unfolding set_bombArea by auto
qed

text \<open>
  The clear of a bomb at \<open>(3, 3)\<close>: the cells of the disc are emptied and every other cell
  keeps its content.
\<close>

lemma bomb_clear_at_3_3:
  assumes "wf_board (board g)" and "cellAt (board g) 3 3 = Some p" and "kind p = BOMB"
  shows "(\<forall>x y. cellAt (board (detonationClear p (3, 3) specialTarget g)) x y
            = (if (x - 3) * (x - 3) + (y - 3) * (y - 3) \<le> 4 then None else cellAt (board g) x y))
       \<and> card {c :: pos. (fst c - 3) * (fst c - 3) + (snd c - 3) * (snd c - 3) \<le> 4} = 13
       \<and> (\<forall>c :: pos. (fst c - 3) * (fst c - 3) + (snd c - 3) * (snd c - 3) \<le> 4
             \<longrightarrow> isInBounds (fst c) (snd c))"
proof -
  let ?disc = "{c :: pos. (fst c - 3) * (fst c - 3) + (snd c - 3) * (snd c - 3) \<le> 4}"
  have area: "set (detonationArea p (3, 3) specialTarget) = ?disc"
  proof -
    have "set (detonationArea p (3, 3) specialTarget) = insert (3, 3) (set (bombArea (3, 3)))"
      using assms(3) by (simp add: detonationArea_def Let_def)
    also have "\<dots> = insert (3, 3) ?disc" by (simp only: disc_is_bombArea)
    also have "\<dots> = ?disc" by auto
    finally show ?thesis .
  qed
  have bomb: "bombArea (3, 3) = [(3, 1), (2, 2), (3, 2), (4, 2), (1, 3), (2, 3), (3, 3), (4, 3), (5, 3),
      (2, 4), (3, 4), (4, 4), (3, 5)]" by code_simp
  have inb: "\<forall>c \<in> ?disc. isInBounds (fst c) (snd c)"
    unfolding disc_is_bombArea bomb by (simp add: isInBounds_def GRID_def)
  have c13: "card ?disc = 13"
    unfolding disc_is_bombArea bomb by simp
  have cells: "\<forall>x y. cellAt (board (detonationClear p (3, 3) specialTarget g)) x y
            = (if (x - 3) * (x - 3) + (y - 3) * (y - 3) \<le> 4 then None else cellAt (board g) x y)"
  proof (intro allI)
    fix x y
    have m: "((x, y) \<in> set (detonationArea p (3, 3) specialTarget))
        = ((x - 3) * (x - 3) + (y - 3) * (y - 3) \<le> 4)"
      unfolding area by simp
    show "cellAt (board (detonationClear p (3, 3) specialTarget g)) x y
            = (if (x - 3) * (x - 3) + (y - 3) * (y - 3) \<le> 4 then None else cellAt (board g) x y)"
      using inb m by (auto simp: detonationClear_cellAt[OF assms(1)])
  qed
  show ?thesis using cells c13 inb by blast
qed

text \<open>
  C4 (amended). Activating a bomb at cell \<open>(3, 3)\<close> with no special piece around it (none
  in the other cells of its blast) clears exactly the cells \<open>(3 + dx, 3 + dy)\<close> with
  \<open>dx\<^sup>2 + dy\<^sup>2 \<le> 4\<close>, the cell \<open>(3, 3)\<close> among them: \<open>detonateSpecial\<close> goes on, with the
  collapse and the cascade, from the board on which these cells are empty and every
  other cell is as before. The set has 13 cells, all of them inside the 8 x 8 grid.
\<close>

theorem bomb_at_3_3_clears_disc:
  assumes "wf_board (board g)" and "\<not> isBusy g"
    and "cellAt (board g) 3 3 = Some p" and "kind p = BOMB"
    and "\<forall>c \<in> set (bombArea (3, 3)). c \<noteq> (3, 3) \<longrightarrow> \<not> isSpecialAt (board g) c"
  shows "detonateSpecial rng (Some (3, 3)) specialTarget g
           = map_option (\<lambda>g'. g'\<lparr>isBusy := False\<rparr>)
               (resolveMatchesAnimated rng None
                  (collapseAndFillAnimated rng
                     (detonationClear p (3, 3) specialTarget (g\<lparr>isBusy := True\<rparr>))))
       \<and> (\<forall>x y. cellAt (board (detonationClear p (3, 3) specialTarget (g\<lparr>isBusy := True\<rparr>))) x y
            = (if (x - 3) * (x - 3) + (y - 3) * (y - 3) \<le> 4 then None else cellAt (board g) x y))
       \<and> card {c :: pos. (fst c - 3) * (fst c - 3) + (snd c - 3) * (snd c - 3) \<le> 4} = 13
       \<and> (\<forall>c :: pos. (fst c - 3) * (fst c - 3) + (snd c - 3) * (snd c - 3) \<le> 4
             \<longrightarrow> isInBounds (fst c) (snd c))"
proof -
  have run: "detonateSpecial rng (Some (3, 3)) specialTarget g
           = map_option (\<lambda>g'. g'\<lparr>isBusy := False\<rparr>)
               (resolveMatchesAnimated rng None
                  (collapseAndFillAnimated rng
                     (detonationClear p (3, 3) specialTarget (g\<lparr>isBusy := True\<rparr>))))"
    using assms(2,3,4) by (simp add: detonateSpecial_def Let_def)
  have wf: "wf_board (board (g\<lparr>isBusy := True\<rparr>))" using assms(1) by simp
  have at: "cellAt (board (g\<lparr>isBusy := True\<rparr>)) 3 3 = Some p" using assms(3) by simp
  from bomb_clear_at_3_3[OF wf at assms(4), of specialTarget]
  show ?thesis using run by simp
qed

theorem bomb_at_3_3_clears_disc_witness:
  "wf_board (board bombGame) \<and> \<not> isBusy bombGame
   \<and> cellAt (board bombGame) 3 3 = Some bombPiece \<and> kind bombPiece = BOMB
   \<and> list_all (\<lambda>c. c = (3, 3) \<or> \<not> isSpecialAt (board bombGame) c) (bombArea (3, 3))
   \<and> detonateSpecial countingSource (Some (3, 3)) None bombGame
        = map_option (\<lambda>g'. g'\<lparr>isBusy := False\<rparr>)
            (resolveMatchesAnimated countingSource None
               (collapseAndFillAnimated countingSource
                  (detonationClear bombPiece (3, 3) None (bombGame\<lparr>isBusy := True\<rparr>))))
   \<and> detonateSpecial countingSource (Some (3, 3)) None bombGame \<noteq> None
   \<and> cellAt (board (detonationClear bombPiece (3, 3) None (bombGame\<lparr>isBusy := True\<rparr>))) 5 3 = None
   \<and> cellAt (board (detonationClear bombPiece (3, 3) None (bombGame\<lparr>isBusy := True\<rparr>))) 5 4
        = cellAt (board bombGame) 5 4
   \<and> isInBounds 5 3"
proof -
  have wf: "wf_board (board bombGame)" by code_simp
  have nb: "\<not> isBusy bombGame" by code_simp
  have at: "cellAt (board bombGame) 3 3 = Some bombPiece" by code_simp
  have k: "kind bombPiece = BOMB" by code_simp
  have ns: "list_all (\<lambda>c. c = (3, 3) \<or> \<not> isSpecialAt (board bombGame) c) (bombArea (3, 3))"
    by code_simp
  then have ns': "\<forall>c \<in> set (bombArea (3, 3)). c \<noteq> (3, 3) \<longrightarrow> \<not> isSpecialAt (board bombGame) c"
    by (auto simp: list_all_iff)
  note t = bomb_at_3_3_clears_disc[OF wf nb at k ns', of countingSource None]
  from t have r: "detonateSpecial countingSource (Some (3, 3)) None bombGame
        = map_option (\<lambda>g'. g'\<lparr>isBusy := False\<rparr>)
            (resolveMatchesAnimated countingSource None
               (collapseAndFillAnimated countingSource
                  (detonationClear bombPiece (3, 3) None (bombGame\<lparr>isBusy := True\<rparr>))))"
    by (rule conjunct1)
  have "map_option isBusy (detonateSpecial countingSource (Some (3, 3)) None bombGame) = Some False"
    by code_simp
  then have ret: "detonateSpecial countingSource (Some (3, 3)) None bombGame \<noteq> None" by auto
  from t have a: "cellAt (board (detonationClear bombPiece (3, 3) None (bombGame\<lparr>isBusy := True\<rparr>))) 5 3
      = None"
    by simp
  from t have b: "cellAt (board (detonationClear bombPiece (3, 3) None (bombGame\<lparr>isBusy := True\<rparr>))) 5 4
      = cellAt (board bombGame) 5 4" by simp
  from t have "(fst ((5, 3) :: pos) - 3) * (fst ((5, 3) :: pos) - 3)
      + (snd ((5, 3) :: pos) - 3) * (snd ((5, 3) :: pos) - 3) \<le> 4
      \<longrightarrow> isInBounds (fst ((5, 3) :: pos)) (snd ((5, 3) :: pos))" by blast
  then have c: "isInBounds 5 3" by simp
  show ?thesis by (intro conjI wf nb at k ns r ret a b c)
qed

text \<open>
  C4 as stated fails: the blast of a bomb at \<open>(3, 3)\<close> has 13 cells, not 21, and on a
  full board the score grows by 14 while 13 occupied cells are cleared.
\<close>

theorem bomb_at_3_3_counterexample:
  "card (set (bombArea (3, 3))) = 13
   \<and> card {c. cellAt (board bombGame) (fst c) (snd c) \<noteq> None
             \<and> cellAt (board (detonationClear bombPiece (3, 3) None bombGame)) (fst c) (snd c) = None} = 13
   \<and> score (detonationClear bombPiece (3, 3) None bombGame) - score bombGame = 14"
proof -
  have wf: "wf_board (board bombGame)" by code_simp
  have a: "card (set (bombArea (3, 3))) = 13" by code_simp
  have b: "card (set (filter (occupiedInBounds (board bombGame)) (detonationArea bombPiece (3, 3) None))) = 13"
    by code_simp
  have c: "score (detonationClear bombPiece (3, 3) None bombGame) - score bombGame = 14"
    by code_simp
  show ?thesis using a b c by (simp only: detonationClear_destroyed[OF wf] simp_thms)
qed

text \<open>
  C7. The score delta of a pass equals the number of pieces destroyed in it. For an
  activation pass the script adds \<open>willClear.length\<close>, and \<open>willClear\<close> lists the
  activated piece's own cell twice when that cell lies in the blast area: a rocket
  activated in place at \<open>(3, 3)\<close> on a full board destroys 5 pieces and adds 6.
\<close>

theorem detonation_score_exceeds_destroyed:
  "card {c. cellAt (board rocketGame) (fst c) (snd c) \<noteq> None
          \<and> cellAt (board (detonationClear rocketPiece (3, 3) None rocketGame)) (fst c) (snd c) = None} = 5
   \<and> score (detonationClear rocketPiece (3, 3) None rocketGame) - score rocketGame = 6"
proof -
  have wf: "wf_board (board rocketGame)" by code_simp
  have b: "card (set (filter (occupiedInBounds (board rocketGame)) (detonationArea rocketPiece (3, 3) None))) = 5"
    by code_simp
  have c: "score (detonationClear rocketPiece (3, 3) None rocketGame) - score rocketGame = 6"
    by code_simp
  show ?thesis using b c by (simp only: detonationClear_destroyed[OF wf] simp_thms)
qed

section \<open>Swap validator\<close>

lemma board_ext:
  assumes "wf_board b" and "wf_board b'"
    and "\<And>x y. isInBounds x y \<Longrightarrow> cellAt b x y = cellAt b' x y"
  shows "b = b'"
proof (rule nth_equalityI)
  show "length b = length b'" using assms(1,2) by (simp add: wf_board_def)
next
  fix i assume i: "i < length b"
  have li: "length (b ! i) = 8" "length (b' ! i) = 8" "i < 8"
    using assms(1,2) i by (auto simp: wf_board_def list_all_length GRID_def)
  show "b ! i = b' ! i"
  proof (rule nth_equalityI)
    show "length (b ! i) = length (b' ! i)" using li by simp
  next
    fix j assume j: "j < length (b ! i)"
    have ib: "isInBounds (int j) (int i)" using j li by (simp add: isInBounds_def GRID_def)
    have "cellAt b (int j) (int i) = b ! i ! j" "cellAt b' (int j) (int i) = b' ! i ! j"
      using assms(1,2) i j li by (simp_all add: cellAt_def wf_board_def)
    then show "b ! i ! j = b' ! i ! j" using assms(3)[OF ib] by simp
  qed
qed

lemma swapCells_wf: "wf_board b \<Longrightarrow> wf_board (swapCells p q b)"
  by (simp add: swapCells_def Let_def wf_board_setCell)

lemma swapCells_cellAt:
  assumes "wf_board b" and "isInBounds (fst p) (snd p)" and "isInBounds (fst q) (snd q)"
  shows "cellAt (swapCells p q b) x y
     = (if (x, y) = q then cellAt b (fst p) (snd p)
        else if (x, y) = p then cellAt b (fst q) (snd q)
        else cellAt b x y)"
  using assms
  by (cases p, cases q) (auto simp: swapCells_def Let_def cellAt_setCell wf_board_setCell)

lemma swapCells_twice:
  assumes "wf_board b" and "isInBounds (fst p) (snd p)" and "isInBounds (fst q) (snd q)"
  shows "swapCells p q (swapCells p q b) = b"
proof (rule board_ext)
  show "wf_board (swapCells p q (swapCells p q b))" using assms(1) by (simp add: swapCells_wf)
  show "wf_board b" by (rule assms(1))
  fix x y
  show "cellAt (swapCells p q (swapCells p q b)) x y = cellAt b x y"
    using assms by (cases p, cases q) (auto simp: swapCells_cellAt swapCells_wf)
qed



section \<open>Completed resolutions\<close>

text \<open>
  C8. After a completed resolution, following a swap or an activation made on a full
  board, every cell of the 8 x 8 grid holds a piece.
\<close>

theorem completed_resolution_fills_grid:
  assumes "wf_board (board g)" and "full_board (board g)"
  shows "(attemptSwap rng origin target g = Some (res, g')
            \<longrightarrow> wf_board (board g') \<and> full_board (board g'))
       \<and> (detonateSpecial rng specialOrigin specialTarget g = Some g''
            \<longrightarrow> wf_board (board g'') \<and> full_board (board g''))"
proof -
  have A: "wf_board (board g') \<and> full_board (board g')"
    if a: "attemptSwap rng origin target g = Some (res, g')"
  proof (cases "res = Ignored")
    case True
    then have "g' = g" using a
      by (auto simp: attemptSwap_def Let_def split: if_splits)
    then show ?thesis using assms by simp
  next
    case ni: False
    then have pre: "isInBounds (fst origin) (snd origin)" "isInBounds (fst target) (snd target)"
      using a by (auto simp: attemptSwap_def Let_def split: if_splits)
    let ?b = "swapCells origin target (board g)"
    show ?thesis
    proof (cases "findMatchSegments ?b = []")
      case True
      then have "board g' = swapCells origin target ?b"
        using a ni by (auto simp: attemptSwap_def Let_def split: if_splits)
      then show ?thesis using assms pre by (simp add: swapCells_twice)
    next
      case False
      then obtain y where y: "resolveMatchesAnimated rng (Some (origin, target))
            (g\<lparr>isBusy := True, board := ?b\<rparr>) = Some y" and g': "g' = y\<lparr>isBusy := False\<rparr>"
        using a ni by (auto simp: attemptSwap_def Let_def split: if_splits)
      from resolve_result[OF y] False have "wf_board (board y) \<and> full_board (board y)" by auto
      then show ?thesis by (simp add: g')
    qed
  qed
  have B: "wf_board (board g'') \<and> full_board (board g'')"
    if d: "detonateSpecial rng specialOrigin specialTarget g = Some g''"
  proof (cases "g'' = g")
    case True
    then show ?thesis using assms by simp
  next
    case False
    then obtain so p y where
      y: "resolveMatchesAnimated rng None
            (collapseAndFillAnimated rng (detonationClear p so specialTarget (g\<lparr>isBusy := True\<rparr>)))
          = Some y" and g'': "g'' = y\<lparr>isBusy := False\<rparr>"
      using d by (auto simp: detonateSpecial_def Let_def split: if_splits option.splits)
    from resolve_result[OF y] collapse_full
    have "wf_board (board y) \<and> full_board (board y)" by auto
    then show ?thesis by (simp add: g'')
  qed
  show ?thesis using A B by blast
qed

theorem completed_resolution_fills_grid_witness:
  "wf_board (board swapGame) \<and> full_board (board swapGame)
   \<and> map_option fst (attemptSwap countingSource (2, 0) (3, 0) swapGame) = Some Matched
   \<and> (\<exists>g'. attemptSwap countingSource (2, 0) (3, 0) swapGame = Some (Matched, g')
          \<and> wf_board (board g') \<and> full_board (board g'))
   \<and> wf_board (board rocketGame) \<and> full_board (board rocketGame)
   \<and> (\<exists>g'. detonateSpecial countingSource (Some (3, 3)) None rocketGame = Some g'
          \<and> wf_board (board g') \<and> full_board (board g') \<and> g' \<noteq> rocketGame)"
proof -
  have w1: "wf_board (board swapGame)" and f1: "full_board (board swapGame)" by code_simp+
  have w2: "wf_board (board rocketGame)" and f2: "full_board (board rocketGame)" by code_simp+
  have m: "map_option fst (attemptSwap countingSource (2, 0) (3, 0) swapGame) = Some Matched"
    by code_simp
  then obtain g1 where g1: "attemptSwap countingSource (2, 0) (3, 0) swapGame = Some (Matched, g1)"
    by (cases "attemptSwap countingSource (2, 0) (3, 0) swapGame") auto
  have n: "map_option score (detonateSpecial countingSource (Some (3, 3)) None rocketGame) = Some 6"
    by code_simp
  then obtain g2 where g2: "detonateSpecial countingSource (Some (3, 3)) None rocketGame = Some g2"
    and s: "score g2 = 6"
    by (cases "detonateSpecial countingSource (Some (3, 3)) None rocketGame") auto
  have ne: "g2 \<noteq> rocketGame" using s by (auto simp: rocketGame_def)
  from completed_resolution_fills_grid[OF w1 f1, of countingSource "(2, 0)" "(3, 0)" Matched g1]
    g1 have a: "wf_board (board g1) \<and> full_board (board g1)" by blast
  from completed_resolution_fills_grid[OF w2 f2, of countingSource _ _ _ _ "Some (3, 3)" None g2]
    g2 have b: "wf_board (board g2) \<and> full_board (board g2)" by blast
  show ?thesis using w1 f1 w2 f2 m g1 g2 a b ne by blast
qed

section \<open>Passes of the resolver loop\<close>

lemma topRun_hasRun: "topRunOfZeros b \<Longrightarrow> findMatchSegments b \<noteq> []"
proof -
  assume t: "topRunOfZeros b"
  have "tripleAt (\<lambda>x. colorAtCell b (int x) (int 0)) 0"
    using t by (simp add: tripleAt_def topRunOfZeros_def GRID_def)
  then have "lineHasRun (\<lambda>x. colorAtCell b (int x) (int 0))"
    by (auto simp: lineHasRun_iff)
  then have "hasRun b"
    by (auto simp: hasRun_def list_ex_iff GRID_def intro!: bexI[of _ 0])
  then show ?thesis by (simp add: findMatchSegments_empty_iff)
qed







section \<open>A fresh board has no run\<close>

lemma forbidOf_length: "length (forbidOf p q) \<le> 1"
  by (auto simp: forbidOf_def split: option.splits)

lemma forbidAt_length: "length (forbidAt b row x y) \<le> 2"
  using forbidOf_length[of "rowAt row (x - 1)" "rowAt row (x - 2)"]
    forbidOf_length[of "cellAt b (int x) (int y - 1)" "cellAt b (int x) (int y - 2)"]
  by (simp add: forbidAt_def)

lemma some_color_free:
  assumes "length forbid \<le> 2"
  shows "find (\<lambda>c. c \<notin> set forbid) [0..<COLORS_length] \<noteq> None"
proof
  assume "find (\<lambda>c. c \<notin> set forbid) [0..<COLORS_length] = None"
  then have "{0..<COLORS_length} \<subseteq> set forbid" by (auto simp: find_None_iff)
  then have "card {0..<COLORS_length} \<le> card (set forbid)" by (intro card_mono) auto
  also have "\<dots> \<le> length forbid" by (rule card_length)
  finally show False using assms by (simp add: COLORS_length_def)
qed

lemma pickColor_not_forbidden:
  assumes "length forbid \<le> 2"
  shows "fst (pickColor rng forbid g) \<notin> set forbid"
proof (cases "forbid = []")
  case True
  then show ?thesis by simp
next
  case False
  obtain c0 g0 where r: "randInt rng COLORS_length g = (c0, g0)" by (cases "randInt rng COLORS_length g")
  obtain c1 g1 where t: "retryColor rng forbid 12 c0 g0 = (c1, g1)" by (cases "retryColor rng forbid 12 c0 g0")
  show ?thesis
  proof (cases "c1 \<in> set forbid")
    case nin: False
    then show ?thesis using False by (simp add: pickColor_def r t)
  next
    case True
    from some_color_free[OF assms] obtain c where
      c: "find (\<lambda>c. c \<notin> set forbid) [0..<COLORS_length] = Some c" by auto
    then have "c \<notin> set forbid" using find_in_set[OF c] by simp
    then show ?thesis using False True c by (simp add: pickColor_def r t)
  qed
qed

lemma forbidOf_mem: "sameColor3 p q (Some r) \<Longrightarrow> color r \<in> set (forbidOf q p)"
  by (auto simp: sameColor3_def forbidOf_def split: option.splits)

lemma makeCell_good:
  assumes "rowGood b y row" and "x = length row"
  shows "\<exists>p. fst (makeCell rng b y (row, g) x) = row @ [Some p] \<and> rowGood b y (row @ [Some p])"
proof -
  let ?forbid = "forbidAt b row x y"
  obtain c g1 where pc: "pickColor rng ?forbid g = (c, g1)" by (cases "pickColor rng ?forbid g")
  let ?p = "\<lparr>pid = nextId g1, color = c, kind = NORMAL\<rparr>"
  have st: "fst (makeCell rng b y (row, g) x) = row @ [Some ?p]"
    by (simp add: makeCell_def Let_def pc makePiece_def)
  have nf: "c \<notin> set ?forbid"
    using pickColor_not_forbidden[where forbid = "?forbid" and rng = rng and g = g, OF forbidAt_length] pc
    by simp
  have h: "\<not> sameColor3 (row ! (x - 2)) (row ! (x - 1)) (Some ?p)" if "2 \<le> x"
  proof
    assume "sameColor3 (row ! (x - 2)) (row ! (x - 1)) (Some ?p)"
    from forbidOf_mem[OF this] have m: "c \<in> set (forbidOf (row ! (x - 1)) (row ! (x - 2)))" by simp
    have "x - 1 < length row" "x - 2 < length row" using that assms(2) by auto
    then have "rowAt row (x - 1) = row ! (x - 1)" "rowAt row (x - 2) = row ! (x - 2)"
      by (simp_all only: rowAt_def if_True)
    then have "c \<in> set (forbidOf (rowAt row (x - 1)) (rowAt row (x - 2)))"
      using m by (simp only:)
    then have "c \<in> set ?forbid" using that by (simp only: forbidAt_def if_True set_append Un_iff simp_thms)
    with nf show False by simp
  qed
  have v: "\<not> sameColor3 (cellAt b (int x) (int y - 2)) (cellAt b (int x) (int y - 1)) (Some ?p)"
  proof
    assume s: "sameColor3 (cellAt b (int x) (int y - 2)) (cellAt b (int x) (int y - 1)) (Some ?p)"
    then have "cellAt b (int x) (int y - 2) \<noteq> None" by (auto simp: sameColor3_def split: option.splits)
    then have y2: "2 \<le> y" by (auto simp: cellAt_def split: if_splits)
    from forbidOf_mem[OF s]
    have "c \<in> set (forbidOf (cellAt b (int x) (int y - 1)) (cellAt b (int x) (int y - 2)))" by simp
    then have "c \<in> set ?forbid" using y2
      by (simp only: forbidAt_def if_True set_append Un_iff simp_thms)
    with nf show False by simp
  qed
  have "rowGood b y (row @ [Some ?p])"
    unfolding rowGood_def
  proof (intro conjI allI impI)
    show "list_all (\<lambda>c. c \<noteq> None) (row @ [Some ?p])"
      using assms(1) by (simp add: rowGood_def)
  next
    fix i assume i: "i + 2 < length (row @ [Some ?p])"
    show "\<not> sameColor3 ((row @ [Some ?p]) ! i) ((row @ [Some ?p]) ! (i + 1)) ((row @ [Some ?p]) ! (i + 2))"
    proof (cases "i + 2 < length row")
      case True
      then show ?thesis using assms(1) by (simp add: rowGood_def nth_append)
    next
      case False
      then have e: "i + 2 = x" "2 \<le> x" using i assms(2) by auto
      have ix: "x - 2 = i" "x - 1 = i + 1" "i < length row" "i + 1 < length row"
        using e assms(2) by arith+
      have a1: "(row @ [Some ?p]) ! i = row ! i" using ix(3) by (simp add: nth_append)
      have a2: "(row @ [Some ?p]) ! (i + 1) = row ! (i + 1)" using ix(4) by (simp add: nth_append)
      have "i + 2 = length row" using e(1) assms(2) by simp
      then have a3: "(row @ [Some ?p]) ! (i + 2) = Some ?p" by (simp only: nth_append_length)
      have hh: "\<not> sameColor3 (row ! i) (row ! (i + 1)) (Some ?p)"
        using h[OF e(2)] unfolding ix(1,2) .
      show ?thesis unfolding a1 a2 a3 by (rule hh)
    qed
  next
    fix i assume i: "i < length (row @ [Some ?p])"
    show "\<not> sameColor3 (cellAt b (int i) (int y - 2)) (cellAt b (int i) (int y - 1)) ((row @ [Some ?p]) ! i)"
    proof (cases "i < length row")
      case True
      then show ?thesis using assms(1) by (simp add: rowGood_def nth_append)
    next
      case False
      then have "i = x" using i assms(2) by auto
      then show ?thesis using v assms(2) by (simp add: nth_append)
    qed
  qed
  then show ?thesis using st by blast
qed

lemma makeCells_good:
  "\<exists>row. fst (foldl (makeCell rng b y) ([], g) [0..<n]) = row \<and> length row = n \<and> rowGood b y row"
proof (induction n)
  case 0
  then show ?case by (simp add: rowGood_def)
next
  case (Suc n)
  then obtain row where row: "fst (foldl (makeCell rng b y) ([], g) [0..<n]) = row"
    "length row = n" "rowGood b y row" by blast
  obtain g' where acc: "foldl (makeCell rng b y) ([], g) [0..<n] = (row, g')"
    using row(1) by (cases "foldl (makeCell rng b y) ([], g) [0..<n]") auto
  from makeCell_good[OF row(3) row(2)[symmetric], of rng g'] obtain p where
    "fst (makeCell rng b y (row, g') n) = row @ [Some p]" "rowGood b y (row @ [Some p])" by blast
  then show ?case using row(2) by (simp add: acc)
qed

lemma cellAt_snoc:
  "cellAt (b @ [row]) x y
     = (if y = int (length b) then (if 0 \<le> x \<and> nat x < length row then row ! nat x else None)
        else cellAt b x y)"
  by (auto simp: cellAt_def nth_append)

lemma sameColor3_None [simp]:
  "\<not> sameColor3 None q r" "\<not> sameColor3 p None r" "\<not> sameColor3 p q None"
  by (auto simp: sameColor3_def split: option.splits)

lemma cellAt_beyond: "int (length b) \<le> y \<Longrightarrow> cellAt b x y = None"
  by (auto simp: cellAt_def)

lemma makeRow_good:
  assumes "boardGood b m"
  shows "\<exists>row. fst (makeRow rng (b, g) m) = b @ [row] \<and> boardGood (b @ [row]) (Suc m)"
proof -
  from makeCells_good[of rng b m g "nat GRID"] obtain row where
    row: "fst (foldl (makeCell rng b m) ([], g) [0..<nat GRID]) = row" "length row = nat GRID"
      "rowGood b m row" by blast
  have st: "fst (makeRow rng (b, g) m) = b @ [row]"
    using row(1) by (simp add: makeRow_def Let_def split_beta)
  have len: "length b = m" and nt: "noTriples b" using assms by (auto simp: boardGood_def)
  have rg: "list_all (\<lambda>c. c \<noteq> None) row"
    "\<And>i. i + 2 < length row \<Longrightarrow> \<not> sameColor3 (row ! i) (row ! (i + 1)) (row ! (i + 2))"
    "\<And>i. i < length row \<Longrightarrow>
        \<not> sameColor3 (cellAt b (int i) (int m - 2)) (cellAt b (int i) (int m - 1)) (row ! i)"
    using row(3) by (auto simp: rowGood_def)
  let ?b = "b @ [row]"
  have horiz: "\<not> sameColor3 (cellAt ?b x y) (cellAt ?b (x + 1) y) (cellAt ?b (x + 2) y)" for x y
  proof (cases "y = int m")
    case False
    then show ?thesis using nt len by (simp add: cellAt_snoc noTriples_def)
  next
    case True
    show ?thesis
    proof (cases "0 \<le> x \<and> nat x + 2 < length row")
      case False
      then show ?thesis using True len by (auto simp: cellAt_snoc)
    next
      case inr: True
      then have "nat (x + 1) = nat x + 1" "nat (x + 2) = nat x + 2" by auto
      then show ?thesis using True len inr rg(2)[of "nat x"] by (simp add: cellAt_snoc)
    qed
  qed
  have vert: "\<not> sameColor3 (cellAt ?b x y) (cellAt ?b x (y + 1)) (cellAt ?b x (y + 2))" for x y
  proof -
    consider "y + 2 < int m" | "y + 2 = int m" | "y + 2 > int m" by linarith
    then show ?thesis
    proof cases
      case 1
      then show ?thesis using nt len by (simp add: cellAt_snoc noTriples_def)
    next
      case 2
      then have y: "y = int m - 2" "y + 1 = int m - 1" by auto
      show ?thesis
      proof (cases "0 \<le> x \<and> nat x < length row")
        case False
        then show ?thesis using 2 len by (auto simp: cellAt_snoc)
      next
        case True
        then have "int (nat x) = x" by simp
        then show ?thesis using 2 len True rg(3)[of "nat x"] by (simp add: cellAt_snoc y)
      qed
    next
      case 3
      then have "cellAt ?b x (y + 2) = None" using len by (simp add: cellAt_beyond)
      then show ?thesis by simp
    qed
  qed
  have "boardGood ?b (Suc m)"
    using assms row(2) rg(1) horiz vert
    by (simp add: boardGood_def full_board_def noTriples_def)
  then show ?thesis using st by blast
qed

lemma makeRows_good:
  "\<exists>b. fst (foldl (makeRow rng) ([], g) [0..<n]) = b \<and> boardGood b n"
proof (induction n)
  case 0
  then show ?case by (simp add: boardGood_def full_board_def noTriples_def cellAt_def)
next
  case (Suc n)
  then obtain b where b: "fst (foldl (makeRow rng) ([], g) [0..<n]) = b" "boardGood b n" by blast
  obtain g' where acc: "foldl (makeRow rng) ([], g) [0..<n] = (b, g')"
    using b(1) by (cases "foldl (makeRow rng) ([], g) [0..<n]") auto
  from makeRow_good[OF b(2), of rng g'] show ?case by (auto simp: acc)
qed

lemma noTriples_no_run: "noTriples b \<Longrightarrow> \<not> hasRun b"
proof
  assume nt: "noTriples b" and "hasRun b"
  then consider y i where "tripleAt (\<lambda>x. colorAtCell b (int x) (int y)) i"
    | x i where "tripleAt (\<lambda>y. colorAtCell b (int x) (int y)) i"
    by (auto simp: hasRun_def list_ex_iff lineHasRun_iff)
  then show False
  proof cases
    case 1
    then have "sameColor3 (cellAt b (int i) (int y)) (cellAt b (int i + 1) (int y)) (cellAt b (int i + 2) (int y))"
      by (auto simp: tripleAt_def colorAtCell_def sameColor3_def add.commute split: option.splits)
    then show False using nt by (simp add: noTriples_def)
  next
    case 2
    then have "sameColor3 (cellAt b (int x) (int i)) (cellAt b (int x) (int i + 1)) (cellAt b (int x) (int i + 2))"
      by (auto simp: tripleAt_def colorAtCell_def sameColor3_def add.commute split: option.splits)
    then show False using nt by (simp add: noTriples_def)
  qed
qed

lemma makeBoard_good:
  "wf_board (fst (makeBoard rng g)) \<and> full_board (fst (makeBoard rng g))
   \<and> findMatchSegments (fst (makeBoard rng g)) = []"
proof -
  from makeRows_good[of rng g "nat GRID"] have "boardGood (fst (makeBoard rng g)) (nat GRID)"
    by (simp add: makeBoard_def)
  then show ?thesis
    using noTriples_no_run by (auto simp: boardGood_def wf_board_def findMatchSegments_empty_iff)
qed

lemma newGame_good:
  "wf_board (board (newGame rng g)) \<and> full_board (board (newGame rng g))
   \<and> findMatchSegments (board (newGame rng g)) = [] \<and> \<not> isBusy (newGame rng g)"
  using makeBoard_good[of rng g] by (simp add: newGame_def split_beta setScore_def)

section \<open>Resting states\<close>

lemma attemptSwap_phases:
  "attemptSwap rng origin target g
     = (case attemptSwapUntilWait origin target g of
          None \<Rightarrow> Some (Ignored, g)
        | Some g1 \<Rightarrow> attemptSwapAfterWait rng origin target g1)"
  by (simp add: attemptSwap_def attemptSwapUntilWait_def attemptSwapAfterWait_def Let_def)

lemma attemptSwap_cases:
  assumes "attemptSwap rng origin target g = Some (res, g')"
  shows "g' = g
       \<or> (isInBounds (fst origin) (snd origin) \<and> isInBounds (fst target) (snd target)
            \<and> g' = g\<lparr>isBusy := True, board := swapCells origin target (board g),
                      board := swapCells origin target (swapCells origin target (board g)),
                      isBusy := False\<rparr>)
       \<or> (findMatchSegments (swapCells origin target (board g)) \<noteq> []
            \<and> (\<exists>y. resolveMatchesAnimated rng (Some (origin, target))
                      (g\<lparr>isBusy := True, board := swapCells origin target (board g)\<rparr>) = Some y
                  \<and> g' = y\<lparr>isBusy := False\<rparr>))"
  using assms by (auto simp: attemptSwap_def Let_def split: if_splits)

lemma detonateSpecial_cases:
  assumes "detonateSpecial rng so st g = Some g'"
  shows "g' = g
       \<or> (\<exists>p o' y. resolveMatchesAnimated rng None
              (collapseAndFillAnimated rng (detonationClear p o' st (g\<lparr>isBusy := True\<rparr>))) = Some y
            \<and> g' = y\<lparr>isBusy := False\<rparr>)"
  using assms by (auto simp: detonateSpecial_def Let_def split: if_splits option.splits)

text \<open>
  A handler that runs without another handler between its waits takes a state at rest
  to a state at rest.
\<close>

lemma attemptSwap_resting:
  assumes "resting g" and a: "attemptSwap rng origin target g = Some (res, g')"
  shows "resting g'"
  using attemptSwap_cases[OF a]
proof (elim disjE conjE exE)
  assume "g' = g"
  then show ?thesis using assms(1) by simp
next
  assume ib: "isInBounds (fst origin) (snd origin)" "isInBounds (fst target) (snd target)"
    and g': "g' = g\<lparr>isBusy := True, board := swapCells origin target (board g),
                    board := swapCells origin target (swapCells origin target (board g)),
                    isBusy := False\<rparr>"
  have "board g' = board g"
    using assms(1) ib by (simp add: g' resting_def swapCells_twice)
  then show ?thesis using assms(1) by (simp add: resting_def g')
next
  fix y
  assume ne: "findMatchSegments (swapCells origin target (board g)) \<noteq> []"
    and y: "resolveMatchesAnimated rng (Some (origin, target))
              (g\<lparr>isBusy := True, board := swapCells origin target (board g)\<rparr>) = Some y"
    and g': "g' = y\<lparr>isBusy := False\<rparr>"
  from resolve_result[OF y] ne
  have "findMatchSegments (board y) = [] \<and> wf_board (board y) \<and> full_board (board y)" by auto
  then show ?thesis by (simp add: resting_def g')
qed

lemma detonateSpecial_resting:
  assumes "resting g" and d: "detonateSpecial rng so st g = Some g'"
  shows "resting g'"
  using detonateSpecial_cases[OF d]
proof (elim disjE conjE exE)
  assume "g' = g"
  then show ?thesis using assms(1) by simp
next
  fix p o' y
  assume y: "resolveMatchesAnimated rng None
      (collapseAndFillAnimated rng (detonationClear p o' st (g\<lparr>isBusy := True\<rparr>))) = Some y"
    and g': "g' = y\<lparr>isBusy := False\<rparr>"
  from resolve_result[OF y] collapse_full
  have "findMatchSegments (board y) = [] \<and> wf_board (board y) \<and> full_board (board y)" by auto
  then show ?thesis by (simp add: resting_def g')
qed

lemma newGame_resting: "resting (newGame rng g)"
  using newGame_good[of rng g] by (simp add: resting_def)

lemma scriptStart_resting: "resting (scriptStart rng)"
  using newGame_good by (simp add: scriptStart_def split_beta resting_def)

subsection \<open>A new game during the swap animation\<close>

lemma makeCell_piece:
  "\<exists>p g'. makeCell rng b y (row, g) x = (row @ [Some p], g')
     \<and> color p \<notin> set (forbidAt b row x y)
     \<and> (forbidAt b row x y = [] \<longrightarrow> color p = rng (rpos g) mod COLORS_length)"
proof -
  let ?forbid = "forbidAt b row x y"
  obtain c g1 where pc: "pickColor rng ?forbid g = (c, g1)" by (cases "pickColor rng ?forbid g")
  have nf: "c \<notin> set ?forbid"
    using pickColor_not_forbidden[where forbid = "?forbid" and rng = rng and g = g, OF forbidAt_length] pc
    by simp
  have free: "c = rng (rpos g) mod COLORS_length" if "?forbid = []"
    using pc that by (simp add: pickColor_def randInt_def)
  have "makeCell rng b y (row, g) x
      = (row @ [Some \<lparr>pid = nextId g1, color = c, kind = NORMAL\<rparr>], g1\<lparr>nextId := nextId g1 + 1\<rparr>)"
    by (simp add: makeCell_def Let_def pc makePiece_def)
  then show ?thesis using nf free by auto
qed

lemma makeCells_prefix: "\<exists>rest g'. foldl (makeCell rng b y) (row, g) xs = (row @ rest, g')"
proof (induction xs arbitrary: row g)
  case Nil
  then show ?case by simp
next
  case (Cons x xs)
  from makeCell_piece[of rng b y row g x] obtain p g1 where
    "makeCell rng b y (row, g) x = (row @ [Some p], g1)" by blast
  moreover from Cons[of "row @ [Some p]" g1] obtain rest g' where
    "foldl (makeCell rng b y) (row @ [Some p], g1) xs = ((row @ [Some p]) @ rest, g')" by blast
  ultimately show ?case by simp
qed

lemma makeRows_prefix: "\<exists>rest g'. foldl (makeRow rng) (b, g) ys = (b @ rest, g')"
proof (induction ys arbitrary: b g)
  case Nil
  then show ?case by simp
next
  case (Cons y ys)
  obtain row g1 where "makeRow rng (b, g) y = (b @ [row], g1)"
    by (simp add: makeRow_def Let_def split_beta)
  moreover from Cons[of "b @ [row]" g1] obtain rest g' where
    "foldl (makeRow rng) (b @ [row], g1) ys = ((b @ [row]) @ rest, g')" by blast
  ultimately show ?case by simp
qed

text \<open>
  With every draw giving colour 0, the first row of a fresh board starts with the
  colours 0, 0, a colour other than 0 (the third 0 is forbidden), and 0 again.
\<close>

lemma constant_first_cells:
  "\<exists>p0 p1 p2 p3 g'.
     foldl (makeCell constantSource [] 0) ([], g) [0, 1, 2, 3]
       = ([Some p0, Some p1, Some p2, Some p3], g')
     \<and> color p0 = 0 \<and> color p1 = 0 \<and> color p3 = 0"
proof -
  from makeCell_piece[of constantSource "[]" 0 "[]" g 0] obtain p0 g0 where
    s0: "makeCell constantSource [] 0 ([], g) 0 = ([Some p0], g0)" and c0: "color p0 = 0"
    by (auto simp: forbidAt_def constantSource_def)
  from makeCell_piece[of constantSource "[]" 0 "[Some p0]" g0 1] obtain p1 g1 where
    s1: "makeCell constantSource [] 0 ([Some p0], g0) 1 = ([Some p0, Some p1], g1)"
    and c1: "color p1 = 0"
    by (auto simp: forbidAt_def constantSource_def)
  have f2: "forbidAt [] [Some p0, Some p1] 2 0 = [0]"
    using c0 c1 by (simp add: forbidAt_def forbidOf_def rowAt_def)
  from makeCell_piece[of constantSource "[]" 0 "[Some p0, Some p1]" g1 2] obtain p2 g2 where
    s2: "makeCell constantSource [] 0 ([Some p0, Some p1], g1) 2 = ([Some p0, Some p1, Some p2], g2)"
    and c2: "color p2 \<noteq> 0"
    unfolding f2 by auto
  have f3: "forbidAt [] [Some p0, Some p1, Some p2] 3 0 = []"
    using c1 c2 by (simp add: forbidAt_def forbidOf_def rowAt_def)
  from makeCell_piece[of constantSource "[]" 0 "[Some p0, Some p1, Some p2]" g2 3] obtain p3 g3 where
    s3: "makeCell constantSource [] 0 ([Some p0, Some p1, Some p2], g2) 3
           = ([Some p0, Some p1, Some p2, Some p3], g3)"
    and c3: "color p3 = 0"
    unfolding f3 by (auto simp: constantSource_def)
  show ?thesis using s0 s1 s2 s3 c0 c1 c3 by simp
qed

lemma constant_board_top:
  "colorAtCell (fst (makeBoard constantSource g)) 0 0 = Some 0
   \<and> colorAtCell (fst (makeBoard constantSource g)) 1 0 = Some 0
   \<and> colorAtCell (fst (makeBoard constantSource g)) 3 0 = Some 0"
proof -
  have u: "[0..<nat GRID] = [0, 1, 2, 3] @ [4..<8]" by code_simp
  have v: "[0..<nat GRID] = 0 # [1..<8]" by code_simp
  from constant_first_cells[of g] obtain p0 p1 p2 p3 g1 where
    c: "foldl (makeCell constantSource [] 0) ([], g) [0, 1, 2, 3]
          = ([Some p0, Some p1, Some p2, Some p3], g1)"
       "color p0 = 0" "color p1 = 0" "color p3 = 0" by blast
  from makeCells_prefix[of constantSource "[]" 0 "[Some p0, Some p1, Some p2, Some p3]" g1 "[4..<8]"]
  obtain rest g2 where
    r: "foldl (makeCell constantSource [] 0) ([Some p0, Some p1, Some p2, Some p3], g1) [4..<8]
          = ([Some p0, Some p1, Some p2, Some p3] @ rest, g2)" by blast
  have w: "foldl (makeCell constantSource [] 0) ([], g) [0..<nat GRID]
      = ([Some p0, Some p1, Some p2, Some p3] @ rest, g2)"
    by (simp only: u foldl_append c(1) r)
  have row: "makeRow constantSource ([], g) 0 = ([[Some p0, Some p1, Some p2, Some p3] @ rest], g2)"
    unfolding makeRow_def Let_def fst_conv snd_conv w by simp
  from makeRows_prefix[of constantSource "[[Some p0, Some p1, Some p2, Some p3] @ rest]" g2 "[1..<8]"]
  obtain rows g3 where
    "foldl (makeRow constantSource) ([[Some p0, Some p1, Some p2, Some p3] @ rest], g2) [1..<8]
       = ([[Some p0, Some p1, Some p2, Some p3] @ rest] @ rows, g3)" by blast
  then have "fst (makeBoard constantSource g) = ([Some p0, Some p1, Some p2, Some p3] @ rest) # rows"
    unfolding makeBoard_def v foldl_Cons row by simp
  then show ?thesis using c(2,3,4) by (simp add: colorAtCell_def cellAt_def)
qed

lemma new_game_during_swap:
  assumes "resting g"
    and "isInBounds (fst origin) (snd origin)" and "isInBounds (fst target) (snd target)"
    and "manhattan origin target = 1"
  shows "Option.bind (attemptSwapUntilWait origin target g)
           (\<lambda>g1. attemptSwapAfterWait rng origin target (newGame rng g1))
         = Some (NoMatch,
             (newGame rng (g\<lparr>isBusy := True, board := swapCells origin target (board g)\<rparr>))
               \<lparr>board := swapCells origin target
                   (board (newGame rng (g\<lparr>isBusy := True, board := swapCells origin target (board g)\<rparr>))),
                isBusy := False\<rparr>)"
proof -
  have full: "full_board (board g)" "wf_board (board g)" "\<not> isBusy g"
    using assms(1) by (simp_all add: resting_def)
  have occ: "cellAt (board g) x y \<noteq> None" if "isInBounds x y" for x y
    using full that by (auto simp: full_board_def wf_board_def cellAt_def isInBounds_def
        list_all_length)
  have "attemptSwapUntilWait origin target g
      = Some (g\<lparr>isBusy := True, board := swapCells origin target (board g)\<rparr>)"
    using full(3) assms(2,3,4) occ[OF assms(2)] occ[OF assms(3)]
    by (simp add: attemptSwapUntilWait_def Let_def)
  then show ?thesis
    using newGame_good[of rng "g\<lparr>isBusy := True, board := swapCells origin target (board g)\<rparr>"]
    by (simp add: attemptSwapAfterWait_def)
qed

text \<open>
  C1. Every resting board is free of runs. This holds for a board made by \<open>makeBoard\<close> and
  is kept by every handler that runs undisturbed (lemmas above), but the script can come
  to rest on a board with a run. Started with a random source whose every draw is 0,
  the player drags \<open>(2, 0)\<close> onto \<open>(3, 0)\<close>: \<open>attemptSwap\<close> swaps the cells and waits for
  the swap animation. The player clicks New Game: \<open>newGame\<close> installs a fresh board,
  whose first row starts 0, 0, 1, 0, and clears \<open>isBusy\<close>. The resumed \<open>attemptSwap\<close> finds
  no run on the fresh board, takes this for a swap that matched nothing and swaps
  \<open>(2, 0)\<close> and \<open>(3, 0)\<close> back, on the fresh board; nothing is detected after that. The
  handler ends with \<open>isBusy\<close> cleared and three pieces of colour 0 at the start of the
  first row.
\<close>

theorem new_game_during_swap_leaves_run:
  "map_option (\<lambda>(res, g). (res, isBusy g, findMatchSegments (board g) = [], hasRun (board g)))
     (Option.bind (attemptSwapUntilWait (2, 0) (3, 0) (scriptStart constantSource))
        (\<lambda>g1. attemptSwapAfterWait constantSource (2, 0) (3, 0) (newGame constantSource g1)))
   = Some (NoMatch, False, False, True)"
proof -
  let ?g1 = "(scriptStart constantSource)\<lparr>isBusy := True,
      board := swapCells (2, 0) (3, 0) (board (scriptStart constantSource))\<rparr>"
  let ?fresh = "board (newGame constantSource ?g1)"
  let ?end = "swapCells (2, 0) (3, 0) ?fresh"
  have run: "Option.bind (attemptSwapUntilWait (2, 0) (3, 0) (scriptStart constantSource))
        (\<lambda>g1. attemptSwapAfterWait constantSource (2, 0) (3, 0) (newGame constantSource g1))
      = Some (NoMatch, (newGame constantSource ?g1)\<lparr>board := ?end, isBusy := False\<rparr>)"
    by (rule new_game_during_swap[OF scriptStart_resting])
       (simp_all add: isInBounds_def GRID_def manhattan_def)
  have fresh: "?fresh = fst (makeBoard constantSource ?g1)"
    by (simp add: newGame_def split_beta setScore_def)
  have wf: "wf_board ?fresh" using newGame_good[of constantSource ?g1] by simp
  have top: "colorAtCell ?fresh 0 0 = Some 0" "colorAtCell ?fresh 1 0 = Some 0"
    "colorAtCell ?fresh 3 0 = Some 0"
    unfolding fresh using constant_board_top[of ?g1] by simp_all
  have ib: "isInBounds 2 0" "isInBounds 3 0" by (simp_all add: isInBounds_def GRID_def)
  have "topRunOfZeros ?end"
    using wf top ib
    by (simp add: topRunOfZeros_def swapCells_wf colorAtCell_def swapCells_cellAt)
  then have ne: "findMatchSegments ?end \<noteq> []" by (rule topRun_hasRun)
  then have h: "hasRun ?end" by (simp add: findMatchSegments_empty_iff)
  show ?thesis unfolding run using ne h by simp
qed

theorem new_game_during_swap_leaves_run_witness:
  "\<exists>g1 g3. attemptSwapUntilWait (2, 0) (3, 0) (scriptStart constantSource) = Some g1
      \<and> attemptSwapAfterWait constantSource (2, 0) (3, 0) (newGame constantSource g1)
           = Some (NoMatch, g3)
      \<and> \<not> isBusy g3 \<and> findMatchSegments (board g3) \<noteq> [] \<and> hasRun (board g3)"
proof -
  let ?r = "Option.bind (attemptSwapUntilWait (2, 0) (3, 0) (scriptStart constantSource))
        (\<lambda>g1. attemptSwapAfterWait constantSource (2, 0) (3, 0) (newGame constantSource g1))"
  from new_game_during_swap_leaves_run obtain res g3 where
    r: "?r = Some (res, g3)"
    and p: "(res, isBusy g3, findMatchSegments (board g3) = [], hasRun (board g3))
              = (NoMatch, False, False, True)"
    by (cases ?r) auto
  from r obtain g1 where
    "attemptSwapUntilWait (2, 0) (3, 0) (scriptStart constantSource) = Some g1"
    "attemptSwapAfterWait constantSource (2, 0) (3, 0) (newGame constantSource g1) = Some (res, g3)"
    by (auto simp: bind_eq_Some_conv)
  then show ?thesis using p by auto
qed

end
